theory Spec2Isabelle
  imports Complex_Main "HOL-Library.Char_ord" "HOL-Library.List_Lexorder" "HOL-Library.Multiset"
begin

section \<open>MetaReasoner: the council engine and the rating engine\<close>

text \<open>
  A shallow embedding of \<^verbatim>\<open>backend/council.py\<close> and of
  \<^verbatim>\<open>calculate_elo_ratings\<close> in \<^verbatim>\<open>backend/storage.py\<close>.

  Conventions of the embedding:
  \<^item> A Python \<^verbatim>\<open>str\<close> is a \<^typ>\<open>string\<close>: a list of characters, each standing for
    one code point below 256. On that range the classes used by the source are exactly
    the ones defined here: \<^verbatim>\<open>\d\<close> is \<^verbatim>\<open>0-9\<close>, \<^verbatim>\<open>[A-Z]\<close> is the ASCII capitals, and
    \<^verbatim>\<open>\s\<close> and \<^verbatim>\<open>str.strip\<close> use the white space of \<^verbatim>\<open>str.isspace\<close>.
  \<^item> A raise is a value \<^term>\<open>Inl e\<close> of a sum type; a normal return is \<^term>\<open>Inr v\<close>.
  \<^item> A \<^verbatim>\<open>dict\<close> is an association list in insertion order, its keys distinct.
  \<^item> A Python \<^verbatim>\<open>float\<close> is a \<^typ>\<open>real\<close>. The ordinal scoring path only meets
    multiples of five, where binary floating point is exact.
\<close>

subsection \<open>Text primitives\<close>

datatype py_error = AttributeError | KeyError

definition is_digit :: "char \<Rightarrow> bool" where
  "is_digit c = (c \<in> set ''0123456789'')"

definition is_upper :: "char \<Rightarrow> bool" where
  "is_upper c = (c \<in> set ''ABCDEFGHIJKLMNOPQRSTUVWXYZ'')"

definition is_space :: "char \<Rightarrow> bool" where
  "is_space c = (c \<in> set [CHR 0x09, CHR 0x0A, CHR 0x0B, CHR 0x0C, CHR 0x0D,
      CHR 0x1C, CHR 0x1D, CHR 0x1E, CHR 0x1F, CHR 0x20, CHR 0x85, CHR 0xA0])"

fun startswith :: "string \<Rightarrow> string \<Rightarrow> bool" where
  "startswith s p = (take (length p) s = p)"

fun contains :: "string \<Rightarrow> string \<Rightarrow> bool" where
  "contains sub [] = (sub = [])"
| "contains sub (c # cs) = (startswith (c # cs) sub \<or> contains sub cs)"

function py_split :: "string \<Rightarrow> string \<Rightarrow> string \<Rightarrow> string list" where
  "py_split sep acc [] = [acc]"
| "py_split sep acc (c # cs) =
     (if sep \<noteq> [] \<and> startswith (c # cs) sep
      then acc # py_split sep [] (drop (length sep) (c # cs))
      else py_split sep (acc @ [c]) cs)"
  by pat_completeness auto
termination
  by (relation "measure (\<lambda>(sep, acc, s). length s)") auto

definition marker :: string where
  "marker = ''FINAL RANKING:''"

subsection \<open>A backtracking matcher for the regular expressions of the source\<close>

text \<open>
  The two patterns of \<^verbatim>\<open>parse_ranking_from_text\<close> are sequences of character classes,
  some under \<^verbatim>\<open>+\<close> or \<^verbatim>\<open>*\<close>. \<open>re_match\<close> is \<^verbatim>\<open>re.match\<close>: greedy, and backtracking
  to a shorter repetition when the rest of the pattern fails; it returns the text left
  after the match. \<open>re_findall\<close> is \<^verbatim>\<open>re.findall\<close> (leftmost matches that do not
  overlap) and \<open>re_search\<close> is \<^verbatim>\<open>re.search\<close> followed by \<^verbatim>\<open>group()\<close> where it matches.
\<close>

datatype cls = Digit | Space | Upper | Lit char
datatype item = One cls | Star cls | Plus cls

fun cls_matches :: "cls \<Rightarrow> char \<Rightarrow> bool" where
  "cls_matches Digit c = is_digit c"
| "cls_matches Space c = is_space c"
| "cls_matches Upper c = is_upper c"
| "cls_matches (Lit d) c = (c = d)"

fun item_weight :: "item \<Rightarrow> nat" where
  "item_weight (One k) = 1"
| "item_weight (Star k) = 1"
| "item_weight (Plus k) = 3"

function re_match :: "item list \<Rightarrow> string \<Rightarrow> string option" where
  "re_match [] s = Some s"
| "re_match (One k # r) [] = None"
| "re_match (One k # r) (c # s) = (if cls_matches k c then re_match r s else None)"
| "re_match (Plus k # r) s = re_match (One k # Star k # r) s"
| "re_match (Star k # r) [] = re_match r []"
| "re_match (Star k # r) (c # s) =
     (if cls_matches k c
      then (case re_match (Star k # r) s of Some t \<Rightarrow> Some t | None \<Rightarrow> re_match r (c # s))
      else re_match r (c # s))"
  by pat_completeness auto
termination
  by (relation "measures [\<lambda>(p, s). length s, \<lambda>(p, s). sum_list (map item_weight p)]") auto

function re_findall :: "item list \<Rightarrow> string \<Rightarrow> string list" where
  "re_findall p [] = (case re_match p [] of Some t \<Rightarrow> [[]] | None \<Rightarrow> [])"
| "re_findall p (c # s) =
     (case re_match p (c # s) of
        None \<Rightarrow> re_findall p s
      | Some t \<Rightarrow>
          if length t < length (c # s)
          then take (length (c # s) - length t) (c # s) # re_findall p t
          else [] # re_findall p s)"
  by pat_completeness auto
termination
  by (relation "measure (\<lambda>(p, s). length s)") auto

fun re_search :: "item list \<Rightarrow> string \<Rightarrow> string option" where
  "re_search p [] = (case re_match p [] of Some t \<Rightarrow> Some [] | None \<Rightarrow> None)"
| "re_search p (c # s) =
     (case re_match p (c # s) of
        Some t \<Rightarrow> Some (take (length (c # s) - length t) (c # s))
      | None \<Rightarrow> re_search p s)"

subsection \<open>The text-ranking parse\<close>

text \<open>
  \<^verbatim>\<open>re.search(...).group()\<close> raises \<^verbatim>\<open>AttributeError\<close> on a text with no match;
  \<open>match_groups\<close> keeps that branch.
\<close>

definition lits :: "string \<Rightarrow> item list" where
  "lits s = map (\<lambda>c. One (Lit c)) s"

definition numbered_pattern :: "item list" where
  "numbered_pattern = [Plus Digit, One (Lit (CHR ''.'')), Star Space] @ lits ''Response '' @ [One Upper]"

definition label_pattern :: "item list" where
  "label_pattern = lits ''Response '' @ [One Upper]"

fun match_groups :: "string list \<Rightarrow> py_error + string list" where
  "match_groups [] = Inr []"
| "match_groups (m # ms) =
     (case re_search label_pattern m of
        None \<Rightarrow> Inl AttributeError
      | Some g \<Rightarrow> (case match_groups ms of Inl e \<Rightarrow> Inl e | Inr gs \<Rightarrow> Inr (g # gs)))"

definition parse_ranking_from_text :: "string \<Rightarrow> py_error + string list" where
  "parse_ranking_from_text ranking_text =
     (if contains ''FINAL RANKING:'' ranking_text then
        (let parts = py_split ''FINAL RANKING:'' [] ranking_text in
         if length parts \<ge> 2 then
           (let ranking_section = last parts;
                numbered_matches = re_findall numbered_pattern ranking_section in
            if numbered_matches \<noteq> [] then match_groups numbered_matches else Inr [])
         else Inr [])
      else Inr [])"

subsection \<open>The text-ranking parse as the specification words it\<close>

text \<open>
  The specification: take the text after the last occurrence of the marker; within that
  tail, extract entries matching "number, full stop, Response, letter" in textual order
  and return their \<^verbatim>\<open>Response <letter>\<close> tokens in that order. \<open>after_last\<close> is the
  text after the last occurrence, \<open>entry_at\<close> reads one entry at the head of a text
  (its token and the text behind it), \<open>numbered_entries\<close> scans a text for entries.
\<close>

definition entry_at :: "string \<Rightarrow> (string \<times> string) option" where
  "entry_at s =
     (let ds = takeWhile is_digit s; r1 = dropWhile is_digit s in
      if ds = [] then None
      else (case r1 of
              [] \<Rightarrow> None
            | d # r2 \<Rightarrow>
                if d \<noteq> CHR ''.'' then None
                else (let r3 = dropWhile is_space r2 in
                      if startswith r3 ''Response ''
                      then (case drop (length ''Response '') r3 of
                              [] \<Rightarrow> None
                            | x # r4 \<Rightarrow> if is_upper x then Some (''Response '' @ [x], r4) else None)
                      else None)))"

lemma entry_at_shorter: "entry_at s = Some (tok, rest) \<Longrightarrow> length rest < length s"
proof -
  assume a: "entry_at s = Some (tok, rest)"
  have d1: "length (dropWhile is_digit s) \<le> length s" by (rule length_dropWhile_le)
  from a obtain r2 x where r1: "dropWhile is_digit s = CHR ''.'' # r2"
    and r4: "drop (length ''Response '') (dropWhile is_space r2) = x # rest"
    by (auto simp: entry_at_def Let_def split: if_splits list.splits)
  have "length (x # rest) \<le> length (dropWhile is_space r2)"
    using r4 by (metis diff_le_self length_drop)
  also have "\<dots> \<le> length r2" by (rule length_dropWhile_le)
  finally show ?thesis using d1 r1 by simp
qed

function numbered_entries :: "string \<Rightarrow> string list" where
  "numbered_entries [] = []"
| "numbered_entries (c # s) =
     (case entry_at (c # s) of
        None \<Rightarrow> numbered_entries s
      | Some (tok, rest) \<Rightarrow> tok # numbered_entries rest)"
  by pat_completeness auto
termination
  by (relation "measure length") (auto dest: entry_at_shorter)

fun after_last :: "string \<Rightarrow> string \<Rightarrow> string" where
  "after_last sep [] = []"
| "after_last sep (c # cs) =
     (if contains sep cs then after_last sep cs else drop (length sep) (c # cs))"

subsection \<open>Round 2: rubrics and the participant's output\<close>

record rubric_entry =
  response_label :: "string option"
  accuracy :: "real option"
  reasoning :: "real option"
  completeness :: "real option"
  clarity :: "real option"
  confidence :: "real option"

datatype json_data = JsonError | JsonOther | JsonEvaluations "rubric_entry list"

record stage2_result =
  s2_model :: string
  s2_ranking :: "string option"
  s2_parsed_ranking :: "string list option"
  s2_rubric :: "rubric_entry list option"

definition get_or :: "'a option \<Rightarrow> 'a \<Rightarrow> 'a" where
  "get_or v d = (case v of None \<Rightarrow> d | Some x \<Rightarrow> x)"

definition py_strip :: "string \<Rightarrow> string" where
  "py_strip s = rev (dropWhile is_space (rev (dropWhile is_space s)))"

definition endswith :: "string \<Rightarrow> string \<Rightarrow> bool" where
  "endswith s p = (length p \<le> length s \<and> drop (length s - length p) s = p)"

definition strip_fences :: "string \<Rightarrow> string" where
  "strip_fences full_text =
     (let clean_text = py_strip full_text;
          clean_text = (if startswith clean_text ''```json'' then drop 7 clean_text
                        else if startswith clean_text ''```'' then drop 3 clean_text
                        else clean_text);
          clean_text = (if endswith clean_text ''```''
                        then take (length clean_text - 3) clean_text else clean_text)
      in py_strip clean_text)"

definition py_sorted_reverse :: "('a \<Rightarrow> 'k::linorder) \<Rightarrow> 'a list \<Rightarrow> 'a list" where
  "py_sorted_reverse key xs = rev (sort_key key (rev xs))"

definition eval_key :: "rubric_entry \<Rightarrow> real" where
  "eval_key x =
     (get_or (accuracy x) 0 + get_or (reasoning x) 0 + get_or (completeness x) 0 +
      get_or (clarity x) 0) * get_or (confidence x) 1"

fun label_tokens :: "rubric_entry list \<Rightarrow> string list" where
  "label_tokens [] = []"
| "label_tokens (ev # evs) =
     (case response_label ev of
        None \<Rightarrow> label_tokens evs
      | Some l \<Rightarrow> (''Response '' @ l) # label_tokens evs)"

definition stage2_entry :: "(string \<Rightarrow> json_data) \<Rightarrow> string \<Rightarrow> string \<Rightarrow> py_error + stage2_result" where
  "stage2_entry json_loads model full_text =
     (let clean_text = strip_fences full_text;
          (rubric, parsed_ranking) =
            (case json_loads clean_text of
               JsonEvaluations evaluations \<Rightarrow>
                 (Some evaluations, label_tokens (py_sorted_reverse eval_key evaluations))
             | _ \<Rightarrow> (None, []))
      in case (if parsed_ranking = [] then parse_ranking_from_text full_text
               else Inr parsed_ranking) of
           Inl e \<Rightarrow> Inl e
         | Inr parsed_ranking \<Rightarrow>
             Inr \<lparr>s2_model = model, s2_ranking = Some full_text,
                  s2_parsed_ranking = Some parsed_ranking, s2_rubric = rubric\<rparr>)"

subsection \<open>The aggregate scorer\<close>

fun dd_get :: "('k \<times> 'v) list \<Rightarrow> 'k \<Rightarrow> 'v \<Rightarrow> 'v" where
  "dd_get [] k d = d"
| "dd_get ((k', v) # kvs) k d = (if k' = k then v else dd_get kvs k d)"

fun dd_set :: "('k \<times> 'v) list \<Rightarrow> 'k \<Rightarrow> 'v \<Rightarrow> ('k \<times> 'v) list" where
  "dd_set [] k v = [(k, v)]"
| "dd_set ((k', v') # kvs) k v = (if k' = k then (k', v) # kvs else (k', v') # dd_set kvs k v)"

definition dd_add :: "(string \<times> 'v::plus) list \<Rightarrow> string \<Rightarrow> 'v \<Rightarrow> 'v \<Rightarrow> (string \<times> 'v) list" where
  "dd_add dict k d v = dd_set dict k (dd_get dict k d + v)"

record aggregate =
  agg_model :: string
  total_score :: real
  average_rank :: real
  rankings_count :: int

type_synonym tally = "(string \<times> real) list \<times> (string \<times> int) list"

definition weight :: "string \<Rightarrow> string \<Rightarrow> real" where
  "weight evaluator_model subject_model = (if evaluator_model = subject_model then 0.5 else 1.0)"

definition credit :: "tally \<Rightarrow> string \<Rightarrow> real \<Rightarrow> tally" where
  "credit t subject_model score =
     (dd_add (fst t) subject_model 0 score, dd_add (snd t) subject_model 0 1)"

fun score_rubric :: "(string \<times> string) list \<Rightarrow> string \<Rightarrow> tally \<Rightarrow> rubric_entry list \<Rightarrow> tally" where
  "score_rubric label_to_model evaluator_model t [] = t"
| "score_rubric label_to_model evaluator_model t (ev # evs) =
     (let label = ''Response '' @ get_or (response_label ev) [] in
      case map_of label_to_model label of
        None \<Rightarrow> score_rubric label_to_model evaluator_model t evs
      | Some subject_model \<Rightarrow>
          (let raw_score = (get_or (accuracy ev) 0 + get_or (reasoning ev) 0 +
                            get_or (completeness ev) 0 + get_or (clarity ev) 0) *
                           get_or (confidence ev) 1;
               weighted_score = raw_score * weight evaluator_model subject_model
           in score_rubric label_to_model evaluator_model
                (credit t subject_model weighted_score) evs))"

fun score_ordinal :: "(string \<times> string) list \<Rightarrow> string \<Rightarrow> int \<Rightarrow> int \<Rightarrow> tally \<Rightarrow> string list \<Rightarrow> tally" where
  "score_ordinal label_to_model evaluator_model num_options position t [] = t"
| "score_ordinal label_to_model evaluator_model num_options position t (label # labels) =
     (case map_of label_to_model label of
        None \<Rightarrow> score_ordinal label_to_model evaluator_model num_options (position + 1) t labels
      | Some subject_model \<Rightarrow>
          (let mock_score = real_of_int ((num_options - position + 1) * 10)
           in score_ordinal label_to_model evaluator_model num_options (position + 1)
                (credit t subject_model (mock_score * weight evaluator_model subject_model)) labels))"

definition fallback_ranking :: "stage2_result \<Rightarrow> py_error + string list" where
  "fallback_ranking ranking =
     (let parsed_ranking = get_or (s2_parsed_ranking ranking) [] in
      if parsed_ranking = [] then parse_ranking_from_text (get_or (s2_ranking ranking) [])
      else Inr parsed_ranking)"

definition score_one :: "(string \<times> string) list \<Rightarrow> tally \<Rightarrow> stage2_result \<Rightarrow> py_error + tally" where
  "score_one label_to_model t ranking =
     (let evaluator_model = s2_model ranking; rubric = s2_rubric ranking in
      if rubric \<noteq> None \<and> rubric \<noteq> Some [] then
        Inr (score_rubric label_to_model evaluator_model t (get_or rubric []))
      else
        (case fallback_ranking ranking of
           Inl e \<Rightarrow> Inl e
         | Inr parsed_ranking \<Rightarrow>
             Inr (score_ordinal label_to_model evaluator_model (int (length label_to_model)) 1
                    t parsed_ranking)))"

fun score_all :: "(string \<times> string) list \<Rightarrow> tally \<Rightarrow> stage2_result list \<Rightarrow> py_error + tally" where
  "score_all label_to_model t [] = Inr t"
| "score_all label_to_model t (ranking # rankings) =
     (case score_one label_to_model t ranking of
        Inl e \<Rightarrow> Inl e
      | Inr t' \<Rightarrow> score_all label_to_model t' rankings)"

definition py_round :: "real \<Rightarrow> int" where
  "py_round x =
     (let f = \<lfloor>x\<rfloor>; d = x - of_int f in
      if d < 1 / 2 then f else if 1 / 2 < d then f + 1
      else if even f then f else f + 1)"

definition round2 :: "real \<Rightarrow> real" where
  "round2 x = of_int (py_round (x * 100)) / 100"

definition calculate_aggregate_rankings ::
  "stage2_result list \<Rightarrow> (string \<times> string) list \<Rightarrow> py_error + aggregate list" where
  "calculate_aggregate_rankings stage2_results label_to_model =
     (case score_all label_to_model ([], []) stage2_results of
        Inl e \<Rightarrow> Inl e
      | Inr (model_scores, model_counts) \<Rightarrow>
          Inr (py_sorted_reverse total_score
                 (map (\<lambda>(model, total). \<lparr>agg_model = model, total_score = round2 total,
                          average_rank = round2 total,
                          rankings_count = dd_get model_counts model 0\<rparr>) model_scores)))"

subsection \<open>Configuration\<close>

definition COUNCIL_MODELS :: "string list" where
  "COUNCIL_MODELS = [''openai/gpt-5.1'', ''google/gemini-3-pro-preview'',
     ''anthropic/claude-sonnet-4.5'', ''x-ai/grok-4'']"

definition ROUTER_MODEL :: string where
  "ROUTER_MODEL = ''google/gemini-2.5-flash''"

definition COUNCIL_PRESETS :: "(string \<times> string list) list" where
  "COUNCIL_PRESETS =
     [(''CODING'', [''deepseek/deepseek-coder'', ''anthropic/claude-3.5-sonnet'', ''openai/gpt-4o'']),
      (''MATH'', [''openai/o1-mini'', ''google/gemini-1.5-pro'', ''anthropic/claude-3.5-sonnet'']),
      (''CREATIVE_WRITING'', [''anthropic/claude-3-opus'', ''google/gemini-2.5-flash'',
         ''mistralai/mixtral-8x7b-instruct'']),
      (''FACTUAL_RESEARCH'', [''perplexity/llama-3.1-sonar-large-128k-online'', ''openai/gpt-4o'',
         ''x-ai/grok-2'']),
      (''REASONING'', [''openai/o1'', ''anthropic/claude-3.5-sonnet'', ''google/gemini-1.5-pro'']),
      (''GENERAL'', COUNCIL_MODELS)]"

definition CHAIRMAN_MODEL :: string where
  "CHAIRMAN_MODEL = ''google/gemini-3-pro-preview''"

definition STAGE1_SYSTEM_PROMPT :: string where
  "STAGE1_SYSTEM_PROMPT =
     ''You are an expert advisor. Respond directly to the prompt without '' @
     ''ANY AI affirmations, filler, or conversational padding (e.g., '' @ ''no '' @
     [CHR 0x27] @ ''Certainly!'' @ [CHR 0x27] @ '', '' @ [CHR 0x27] @ ''Of course!'' @
     [CHR 0x27] @ '', '' @ [CHR 0x27] @ ''Great question!'' @ [CHR 0x27] @ '', '' @
     [CHR 0x27] @ ''I'' @ [CHR 0x5C, CHR 0x27] @ ''d be happy to'' @ [CHR 0x27] @ '', '' @
     [CHR 0x27] @ ''Here is'' @ [CHR 0x27] @ '', '' @ [CHR 0x27] @ ''I hope this helps'' @
     [CHR 0x27] @ ''). Use a strict academic register. Focus entirely on data and '' @
     ''logic.''"

definition STAGE2_SYSTEM_PROMPT :: string where
  "STAGE2_SYSTEM_PROMPT =
     ''You are a critical evaluator. Respond directly without ANY AI '' @
     ''affirmations, filler, or conversational padding. Use a strict '' @
     ''academic register. Be bluntly critical of the responses you '' @
     ''are evaluating. Do not use diplomatic softening or false praise. '' @
     ''Focus entirely on flaws, data, and logic. RETURN ONLY A RAW '' @
     ''JSON OBJECT with no markdown fences, no preamble, and no explanation. '' @
     ''The schema must be EXACTLY: '' @ [CHR 0x7B, CHR 0x22] @ ''evaluations'' @ [CHR 0x22] @
     '': '' @ [CHR 0x5B, CHR 0x7B, CHR 0x22] @ ''response_label'' @ [CHR 0x22] @ '': '' @
     [CHR 0x22] @ ''A'' @ [CHR 0x22] @ '', '' @ [CHR 0x22] @ ''accuracy'' @ [CHR 0x22] @
     '': 8, '' @ [CHR 0x22] @ ''reasoning'' @ [CHR 0x22] @ '': 9, '' @ [CHR 0x22] @
     ''completeness'' @ [CHR 0x22] @ '': 7, '' @ [CHR 0x22] @ ''clarity'' @ [CHR 0x22] @
     '': 8, '' @ [CHR 0x22] @ ''confidence'' @ [CHR 0x22] @ '': 0.9'' @ [CHR 0x7D] @
     '', ...'' @ [CHR 0x5D, CHR 0x7D] @
     '' where scores are 1-10 and confidence is 0.0-1.0 representing '' @
     ''how certain you are in your own assessment.''"

subsection \<open>The model backend\<close>

text \<open>
  \<^verbatim>\<open>backend/openrouter.py\<close> is the collaborator behind \<^verbatim>\<open>query_model\<close>,
  \<^verbatim>\<open>query_models_parallel\<close> and \<^verbatim>\<open>stream_model\<close>; the engine is a function of what
  these three return. A response is the dictionary of a successful call (its text under
  \<^verbatim>\<open>content\<close>), \<open>None\<close> is a failed call. Every awaited call is also written to a log, in
  the order the engine makes it, so that "a round is not run" is a statement about the
  log. \<^verbatim>\<open>json.loads\<close> is likewise a parameter, returning the parsed reply in the shape
  the evaluation prompt prescribes.
\<close>

type_synonym message = "string \<times> string"

type_synonym response = "(string \<times> string) list"

datatype call =
    Query_model string "message list" real
  | Query_models_parallel "string list" "message list"
  | Stream_model string "message list"

record openrouter =
  query_model :: "string \<Rightarrow> message list \<Rightarrow> real \<Rightarrow> response option"
  query_models_parallel :: "string list \<Rightarrow> message list \<Rightarrow> (string \<times> response option) list"
  stream_model :: "string \<Rightarrow> message list \<Rightarrow> string list"

definition content_of :: "response \<Rightarrow> string" where
  "content_of r = get_or (map_of r ''content'') []"

subsection \<open>Round 1\<close>

record stage1_result =
  s1_model :: string
  s1_response :: string

fun successes :: "(string \<times> response option) list \<Rightarrow> (string \<times> response) list" where
  "successes [] = []"
| "successes ((model, response) # rest) =
     (case response of
        None \<Rightarrow> successes rest
      | Some r \<Rightarrow> (model, r) # successes rest)"

definition stage1_collect_responses ::
  "openrouter \<Rightarrow> string \<Rightarrow> string list option \<Rightarrow> stage1_result list \<times> call list" where
  "stage1_collect_responses api user_query council_models =
     (let messages = [(''system'', STAGE1_SYSTEM_PROMPT), (''user'', user_query)];
          active_models = (case council_models of None \<Rightarrow> COUNCIL_MODELS | Some ms \<Rightarrow> ms);
          responses = query_models_parallel api active_models messages;
          stage1_results =
            map (\<lambda>(model, r). \<lparr>s1_model = model, s1_response = content_of r\<rparr>)
              (successes responses)
      in (stage1_results, [Query_models_parallel active_models messages]))"

subsection \<open>Round 2\<close>

fun py_join :: "string \<Rightarrow> string list \<Rightarrow> string" where
  "py_join sep [] = []"
| "py_join sep [x] = x"
| "py_join sep (x # y # ys) = x @ sep @ py_join sep (y # ys)"

definition labels_for :: "'a list \<Rightarrow> string list" where
  "labels_for stage1_results = map (\<lambda>i. [char_of (65 + i)]) [0..<length stage1_results]"

definition make_label_to_model :: "stage1_result list \<Rightarrow> (string \<times> string) list" where
  "make_label_to_model stage1_results =
     foldl (\<lambda>d (label, result). dd_set d (''Response '' @ label) (s1_model result)) []
       (zip (labels_for stage1_results) stage1_results)"

definition ranking_prompt :: "string \<Rightarrow> stage1_result list \<Rightarrow> string" where
  "ranking_prompt user_query stage1_results =
     (let responses_text =
            py_join [CHR 0x0A, CHR 0x0A]
              (map (\<lambda>(label, result).
                      ''Response '' @ label @ '':'' @ [CHR 0x0A] @ s1_response result)
                 (zip (labels_for stage1_results) stage1_results))
      in ''You are evaluating different responses to the following question:'' @
         [CHR 0x0A, CHR 0x0A] @ ''Question: '' @
         user_query @
         [CHR 0x0A, CHR 0x0A] @ ''Here are the responses from different models (anonymized):'' @
         [CHR 0x0A, CHR 0x0A] @
         responses_text @
         [CHR 0x0A, CHR 0x0A] @ ''Now provide your evaluation:'')"

fun stage2_entries ::
  "(string \<Rightarrow> json_data) \<Rightarrow> (string \<times> response) list \<Rightarrow> py_error + stage2_result list" where
  "stage2_entries json_loads [] = Inr []"
| "stage2_entries json_loads ((model, r) # rest) =
     (case stage2_entry json_loads model (content_of r) of
        Inl e \<Rightarrow> Inl e
      | Inr entry \<Rightarrow>
          (case stage2_entries json_loads rest of
             Inl e \<Rightarrow> Inl e
           | Inr entries \<Rightarrow> Inr (entry # entries)))"

definition stage2_collect_rankings ::
  "openrouter \<Rightarrow> (string \<Rightarrow> json_data) \<Rightarrow> string \<Rightarrow> stage1_result list \<Rightarrow> string list option \<Rightarrow>
     (py_error + stage2_result list \<times> (string \<times> string) list) \<times> call list" where
  "stage2_collect_rankings api json_loads user_query stage1_results council_models =
     (let label_to_model = make_label_to_model stage1_results;
          messages = [(''system'', STAGE2_SYSTEM_PROMPT),
                      (''user'', ranking_prompt user_query stage1_results)];
          active_models = (case council_models of None \<Rightarrow> COUNCIL_MODELS | Some ms \<Rightarrow> ms);
          responses = query_models_parallel api active_models messages
      in (case stage2_entries json_loads (successes responses) of
            Inl e \<Rightarrow> Inl e
          | Inr stage2_results \<Rightarrow> Inr (stage2_results, label_to_model),
          [Query_models_parallel active_models messages]))"

subsection \<open>Round 3\<close>

record stage3_result =
  s3_model :: string
  s3_done :: "bool option"
  s3_response :: string

datatype chunk = Token string | Final stage3_result

definition chairman_prompt :: "string \<Rightarrow> stage1_result list \<Rightarrow> stage2_result list \<Rightarrow> string" where
  "chairman_prompt user_query stage1_results stage2_results =
     (let stage1_text =
            py_join [CHR 0x0A, CHR 0x0A]
              (map (\<lambda>result. ''Model: '' @ s1_model result @ [CHR 0x0A] @ ''Response: '' @
                                s1_response result) stage1_results);
          stage2_text =
            py_join [CHR 0x0A, CHR 0x0A]
              (map (\<lambda>result. ''Model: '' @ s2_model result @ [CHR 0x0A] @ ''Ranking: '' @
                                get_or (s2_ranking result) []) stage2_results)
      in ''You are the Chairman of MetaReasoner. Multiple AI models have '' @
         ''provided responses to a user'' @ [CHR 0x27] @
         ''s question, and then ranked each other'' @ [CHR 0x27] @ ''s responses.'' @
         [CHR 0x0A, CHR 0x0A] @ ''Original Question: '' @
         user_query @
         [CHR 0x0A, CHR 0x0A] @ ''STAGE 1 - Individual Responses:'' @ [CHR 0x0A] @
         stage1_text @
         [CHR 0x0A, CHR 0x0A] @ ''STAGE 2 - Peer Rankings:'' @ [CHR 0x0A] @
         stage2_text @
         [CHR 0x0A, CHR 0x0A] @
         ''Your task as Chairman is to synthesize all of this information '' @
         ''into a single, comprehensive, accurate answer to the user'' @ [CHR 0x27] @
         ''s original question. Consider:'' @ [CHR 0x0A] @
         ''- The individual responses and their insights'' @ [CHR 0x0A] @
         ''- The peer rankings and what they reveal about response quality'' @ [CHR 0x0A] @
         ''- Any patterns of agreement or disagreement'' @ [CHR 0x0A, CHR 0x0A] @
         ''Provide a clear, well-reasoned final answer that represents '' @ ''the council'' @
         [CHR 0x27] @ ''s collective wisdom:'')"

definition stage3_synthesize_final ::
  "openrouter \<Rightarrow> string \<Rightarrow> stage1_result list \<Rightarrow> stage2_result list \<Rightarrow> chunk list \<times> call list" where
  "stage3_synthesize_final api user_query stage1_results stage2_results =
     (let messages = [(''user'', chairman_prompt user_query stage1_results stage2_results)];
          chunks = stream_model api CHAIRMAN_MODEL messages;
          accumulated_text = concat chunks
      in (map Token chunks @
            [Final \<lparr>s3_model = CHAIRMAN_MODEL, s3_done = Some True,
                     s3_response = accumulated_text\<rparr>],
          [Stream_model CHAIRMAN_MODEL messages]))"

subsection \<open>Classification and the panel\<close>

definition py_upper :: "string \<Rightarrow> string" where
  "py_upper s =
     map (\<lambda>c. case map_of (zip ''abcdefghijklmnopqrstuvwxyz'' ''ABCDEFGHIJKLMNOPQRSTUVWXYZ'') c of
                None \<Rightarrow> c
              | Some u \<Rightarrow> u) s"

definition classify_prompt :: "string \<Rightarrow> string" where
  "classify_prompt user_query =
     ''Analyze the following user query and classify it into EXACTLY '' @
         ''ONE of the following categories:'' @ [CHR 0x0A] @ ''CODING'' @ [CHR 0x0A] @ ''MATH'' @
         [CHR 0x0A] @ ''CREATIVE_WRITING'' @ [CHR 0x0A] @ ''FACTUAL_RESEARCH'' @ [CHR 0x0A] @
         ''REASONING'' @ [CHR 0x0A] @ ''GENERAL'' @ [CHR 0x0A, CHR 0x0A] @ ''Query: '' @
     user_query @
     [CHR 0x0A, CHR 0x0A] @ ''Return ONLY the category name. No other text.''"

definition classify_query :: "openrouter \<Rightarrow> string \<Rightarrow> string \<times> call list" where
  "classify_query api user_query =
     (let messages = [(''user'', classify_prompt user_query)];
          response = query_model api ROUTER_MODEL messages 10
      in ((case response of
             None \<Rightarrow> ''GENERAL''
           | Some r \<Rightarrow>
               if r = [] then ''GENERAL''
               else (let content = py_upper (py_strip (content_of r));
                         content = (if CHR 0x0A \<in> set content
                                    then py_strip (hd (py_split [CHR 0x0A] [] content))
                                    else content)
                     in case find (\<lambda>cat. contains cat content) (map fst COUNCIL_PRESETS) of
                          Some cat \<Rightarrow> cat
                        | None \<Rightarrow> ''GENERAL'')),
          [Query_model ROUTER_MODEL messages 10]))"

definition get_council_for_query ::
  "openrouter \<Rightarrow> string \<Rightarrow> string list option \<Rightarrow> (py_error + string list \<times> string) \<times> call list" where
  "get_council_for_query api user_query user_override =
     (if user_override \<noteq> None \<and> user_override \<noteq> Some [] \<and> 0 < length (get_or user_override [])
      then (Inr (get_or user_override [], ''MANUAL_OVERRIDE''), [])
      else (let (category, log) = classify_query api user_query in
            case map_of COUNCIL_PRESETS ''GENERAL'' of
              None \<Rightarrow> (Inl KeyError, log)
            | Some general \<Rightarrow>
                (Inr (get_or (map_of COUNCIL_PRESETS category) general, category), log)))"

subsection \<open>The full-council driver\<close>

record metadata =
  md_label_to_model :: "(string \<times> string) list option"
  md_aggregate_rankings :: "aggregate list option"
  md_detected_category :: string

fun last_final :: "stage3_result option \<Rightarrow> chunk list \<Rightarrow> stage3_result option" where
  "last_final acc [] = acc"
| "last_final acc (Token s # cs) = last_final acc cs"
| "last_final acc (Final d # cs) =
     last_final (if s3_done d = Some True then Some d else acc) cs"

definition run_full_council ::
  "openrouter \<Rightarrow> (string \<Rightarrow> json_data) \<Rightarrow> string \<Rightarrow> string list option \<Rightarrow>
     (py_error + stage1_result list \<times> stage2_result list \<times> stage3_result option \<times> metadata) \<times>
     call list" where
  "run_full_council api json_loads user_query council_models =
     (case get_council_for_query api user_query council_models of
        (Inl e, log0) \<Rightarrow> (Inl e, log0)
      | (Inr (resolved_models, detected_category), log0) \<Rightarrow>
          (let (stage1_results, log1) =
                 stage1_collect_responses api user_query (Some resolved_models)
           in if length stage1_results < 2
              then (Inr (stage1_results, [],
                         Some \<lparr>s3_model = ''error'', s3_done = None,
                               s3_response = ''At least two models are required for consensus. Please try again.''\<rparr>,
                         \<lparr>md_label_to_model = None, md_aggregate_rankings = None,
                          md_detected_category = detected_category\<rparr>),
                    log0 @ log1)
              else (case stage2_collect_rankings api json_loads user_query stage1_results
                           (Some resolved_models) of
                      (Inl e, log2) \<Rightarrow> (Inl e, log0 @ log1 @ log2)
                    | (Inr (stage2_results, label_to_model), log2) \<Rightarrow>
                        (case calculate_aggregate_rankings stage2_results label_to_model of
                           Inl e \<Rightarrow> (Inl e, log0 @ log1 @ log2)
                         | Inr aggregate_rankings \<Rightarrow>
                             (let (chunks, log3) =
                                    stage3_synthesize_final api user_query stage1_results
                                      stage2_results;
                                  stage3_result = last_final None chunks
                              in (Inr (stage1_results, stage2_results, stage3_result,
                                       \<lparr>md_label_to_model = Some label_to_model,
                                        md_aggregate_rankings = Some aggregate_rankings,
                                        md_detected_category = detected_category\<rparr>),
                                  log0 @ log1 @ log2 @ log3))))))"

subsection \<open>The regular expressions against the scan\<close>

lemma star_skip:
  assumes "\<And>c s. cls_matches k c \<Longrightarrow> re_match r (c # s) = None"
  shows "re_match (Star k # r) s = re_match r (dropWhile (cls_matches k) s)"
  using assms by (induction s) (auto split: option.splits)

lemma lits_match:
  "re_match (lits l @ r) s = (if startswith s l then re_match r (drop (length l) s) else None)"
proof (induction l arbitrary: s)
  case Nil
  then show ?case by (simp add: lits_def)
next
  case (Cons a l)
  then show ?case by (cases s) (auto simp: lits_def)
qed

lemma dot_not_digit: "\<not> is_digit (CHR ''.'')" by (simp add: is_digit_def)
lemma R_not_space: "\<not> is_space (CHR ''R'')" by (simp add: is_space_def)

lemma match_numbered:
  "re_match numbered_pattern s = map_option snd (entry_at s)"
proof (cases s)
  case Nil
  then show ?thesis by (simp add: numbered_pattern_def entry_at_def)
next
  case (Cons c s')
  let ?R2 = "lits ''Response '' @ [One Upper]"
  let ?R1 = "One (Lit (CHR ''.'')) # Star Space # ?R2"
  have sk1: "\<And>t. re_match (Star Digit # ?R1) t = re_match ?R1 (dropWhile is_digit t)"
  proof -
    fix t
    have "re_match (Star Digit # ?R1) t = re_match ?R1 (dropWhile (cls_matches Digit) t)"
      by (rule star_skip) (auto simp: dot_not_digit)
    then show "re_match (Star Digit # ?R1) t = re_match ?R1 (dropWhile is_digit t)"
      by (simp add: cls_matches.simps[abs_def])
  qed
  have sk2: "\<And>t. re_match (Star Space # ?R2) t = re_match ?R2 (dropWhile is_space t)"
  proof -
    fix t
    have "re_match (Star Space # ?R2) t = re_match ?R2 (dropWhile (cls_matches Space) t)"
      by (rule star_skip) (auto simp: lits_def R_not_space)
    then show "re_match (Star Space # ?R2) t = re_match ?R2 (dropWhile is_space t)"
      by (simp add: cls_matches.simps[abs_def])
  qed
  show ?thesis
  proof (cases "is_digit c")
    case False
    then show ?thesis using Cons by (simp add: numbered_pattern_def entry_at_def)
  next
    case True
    have "re_match numbered_pattern s = re_match ?R1 (dropWhile is_digit s')"
      using Cons True sk1 by (simp add: numbered_pattern_def)
    also have "\<dots> = map_option snd (entry_at s)"
    proof (cases "dropWhile is_digit s'")
      case Nil
      then show ?thesis using \<open>s = c # s'\<close> True
        by (simp add: entry_at_def del: dropWhile_eq_Nil_conv)
    next
      case (Cons d r2)
      show ?thesis
      proof (cases "d = CHR ''.''")
        case False
        then show ?thesis using Cons \<open>s = c # s'\<close> True by (simp add: entry_at_def)
      next
        case dot: True
        have "re_match ?R1 (d # r2) = re_match ?R2 (dropWhile is_space r2)"
          using dot sk2 by simp
        also have "\<dots> = (if startswith (dropWhile is_space r2) ''Response ''
                          then re_match [One Upper] (drop (length ''Response '') (dropWhile is_space r2)) else None)"
          using lits_match[of "''Response ''" "[One Upper]"] by simp
        also have "\<dots> = map_option snd (entry_at s)"
          using Cons \<open>s = c # s'\<close> True dot
          by (auto simp: entry_at_def Let_def split: list.splits)
        finally show ?thesis using Cons by simp
      qed
    qed
    finally show ?thesis .
  qed
qed

lemma py_split_nonempty: "py_split sep acc s \<noteq> []"
  by (induction sep acc s rule: py_split.induct) auto

lemma contains_iff: "contains sub s \<longleftrightarrow> (\<exists>pre post. s = pre @ sub @ post)"
proof (induction s)
  case Nil
  then show ?case by auto
next
  case (Cons c cs)
  show ?case
  proof
    assume "contains sub (c # cs)"
    then consider "take (length sub) (c # cs) = sub" | "contains sub cs" by auto
    then show "\<exists>pre post. c # cs = pre @ sub @ post"
    proof cases
      case 1
      then have "c # cs = [] @ sub @ drop (length sub) (c # cs)"
        by (metis append_Nil append_take_drop_id)
      then show ?thesis by blast
    next
      case 2
      then obtain pre post where "cs = pre @ sub @ post" using Cons.IH by blast
      then have "c # cs = (c # pre) @ sub @ post" by simp
      then show ?thesis by blast
    qed
  next
    assume "\<exists>pre post. c # cs = pre @ sub @ post"
    then obtain pre post where e: "c # cs = pre @ sub @ post" by blast
    show "contains sub (c # cs)"
    proof (cases pre)
      case Nil
      then have "take (length sub) (c # cs) = sub" using e by simp
      then show ?thesis by simp
    next
      case (Cons a pre')
      then have "cs = pre' @ sub @ post" using e by simp
      then have "contains sub cs" using Cons.IH by blast
      then show ?thesis by simp
    qed
  qed
qed

lemma split_absent: "\<not> contains sep s \<Longrightarrow> py_split sep acc s = [acc @ s]"
  by (induction sep acc s rule: py_split.induct) auto

lemma after_last_append:
  "contains sep ys \<Longrightarrow> after_last sep (xs @ ys) = after_last sep ys"
proof (induction xs)
  case Nil
  then show ?case by simp
next
  case (Cons x xs)
  have "contains sep (xs @ ys)"
    using Cons.prems by (metis append.assoc contains_iff)
  then show ?case using Cons by simp
qed

lemma marker_F: "0 < k \<Longrightarrow> k < length marker \<Longrightarrow> marker ! k \<noteq> CHR ''F''"
proof -
  assume k: "0 < k" "k < length marker"
  have "marker ! k = tl marker ! (k - 1)" using k by (simp add: nth_tl)
  moreover have "k - 1 < length (tl marker)" using k by simp
  ultimately have "marker ! k \<in> set (tl marker)" by (metis nth_mem)
  moreover have "CHR ''F'' \<notin> set (tl marker)" by (simp add: marker_def)
  ultimately show ?thesis by metis
qed

lemma marker_no_overlap:
  assumes "take (length marker) s = marker" and "contains marker (tl s)"
  shows "contains marker (drop (length marker) s)"
proof -
  from assms(1) have s1: "s = marker @ drop (length marker) s"
    by (metis append_take_drop_id)
  from assms(2) obtain pre post where t: "tl s = pre @ marker @ post"
    using contains_iff by blast
  have sne: "s \<noteq> []" using assms(1) by (auto simp: marker_def)
  define pre' where "pre' = hd s # pre"
  have s2: "s = pre' @ marker @ post"
    using t sne by (cases s) (auto simp: pre'_def)
  have pos: "0 < length pre'" by (simp add: pre'_def)
  show ?thesis
  proof (cases "length pre' < length marker")
    case True
    have "s ! length pre' = marker ! length pre'"
      by (subst s1) (simp add: nth_append True)
    moreover have "s ! length pre' = CHR ''F''"
      by (subst s2) (simp add: marker_def)
    ultimately have "marker ! length pre' = CHR ''F''" by simp
    then show ?thesis using marker_F[OF pos True] by simp
  next
    case False
    have "drop (length marker) s = drop (length marker) (pre' @ marker @ post)"
      using s2 by simp
    also have "\<dots> = drop (length marker) pre' @ marker @ post"
      using False by simp
    finally show ?thesis using contains_iff by blast
  qed
qed

lemma split_last_general:
  "sep \<noteq> [] \<Longrightarrow>
   \<forall>t. take (length sep) t = sep \<longrightarrow> contains sep (tl t) \<longrightarrow>
               contains sep (drop (length sep) t) \<Longrightarrow>
   contains sep s \<Longrightarrow>
     last (py_split sep acc s) = after_last sep s \<and> 2 \<le> length (py_split sep acc s)"
proof (induction sep acc s rule: py_split.induct)
  case (1 sep acc)
  then show ?case by simp
next
  case (2 sep acc c cs)
  show ?case
  proof (cases "take (length sep) (c # cs) = sep")
    case True
    let ?rest = "drop (length sep) (c # cs)"
    have sp: "py_split sep acc (c # cs) = acc # py_split sep [] ?rest"
      using True "2.prems"(1) by simp
    show ?thesis
    proof (cases "contains sep ?rest")
      case c1: True
      have ih: "last (py_split sep [] ?rest) = after_last sep ?rest"
        using "2.IH"(1) "2.prems" True c1 by simp
      have "c # cs = take (length sep) (c # cs) @ ?rest" by simp
      then have "after_last sep (c # cs) = after_last sep ?rest"
        using after_last_append[OF c1] by metis
      then show ?thesis using sp ih py_split_nonempty[of sep "[]" ?rest]
        by (cases "py_split sep [] ?rest") auto
    next
      case c2: False
      have "\<not> contains sep cs"
        using "2.prems"(2) True c2 by (metis list.sel(3))
      then have "after_last sep (c # cs) = ?rest" by simp
      moreover have "py_split sep [] ?rest = [?rest]"
        using split_absent[OF c2] by simp
      ultimately show ?thesis using sp by simp
    qed
  next
    case False
    then have c: "contains sep cs" using "2.prems" by simp
    have "py_split sep acc (c # cs) = py_split sep (acc @ [c]) cs"
      using False by simp
    moreover have "after_last sep (c # cs) = after_last sep cs" using c by simp
    ultimately show ?thesis using "2.IH"(2) "2.prems" False c by simp
  qed
qed

lemma search_skip:
  "\<forall>c\<in>set xs. c \<noteq> CHR ''R'' \<Longrightarrow> re_search label_pattern (xs @ ys) = re_search label_pattern ys"
  by (induction xs) (auto simp: label_pattern_def lits_def)

lemma search_token:
  "is_upper x \<Longrightarrow> re_search label_pattern (''Response '' @ [x]) = Some (''Response '' @ [x])"
  by (simp add: label_pattern_def lits_def)

lemma entry_at_text:
  assumes "entry_at s = Some (tok, rest)"
  shows "\<exists>ds ws x. s = ds @ [CHR ''.''] @ ws @ tok @ rest \<and> ds \<noteq> [] \<and>
           (\<forall>c\<in>set ds. is_digit c) \<and> (\<forall>c\<in>set ws. is_space c) \<and>
           tok = ''Response '' @ [x] \<and> is_upper x"
proof -
  let ?ds = "takeWhile is_digit s"
  from assms obtain r2 x where ne: "?ds \<noteq> []"
    and r1: "dropWhile is_digit s = CHR ''.'' # r2"
    and st: "take (length ''Response '') (dropWhile is_space r2) = ''Response ''"
    and r4: "drop (length ''Response '') (dropWhile is_space r2) = x # rest"
    and up: "is_upper x" and tok: "tok = ''Response '' @ [x]"
    by (auto simp: entry_at_def Let_def split: if_splits list.splits)
  let ?ws = "takeWhile is_space r2"
  have "dropWhile is_space r2 = ''Response '' @ x # rest"
    using st r4 by (metis append_take_drop_id)
  then have "r2 = ?ws @ ''Response '' @ x # rest"
    by (metis takeWhile_dropWhile_id)
  then have "r2 = ?ws @ tok @ rest" using tok by simp
  moreover have "s = ?ds @ CHR ''.'' # r2" using r1 by (metis takeWhile_dropWhile_id)
  ultimately have "s = ?ds @ [CHR ''.''] @ ?ws @ tok @ rest" by simp
  moreover have "\<forall>c\<in>set ?ds. is_digit c" by (metis set_takeWhileD)
  moreover have "\<forall>c\<in>set ?ws. is_space c" by (metis set_takeWhileD)
  ultimately show ?thesis using ne up tok by blast
qed

lemma digit_not_R: "is_digit c \<Longrightarrow> c \<noteq> CHR ''R''" by (auto simp: is_digit_def)
lemma space_not_R: "is_space c \<Longrightarrow> c \<noteq> CHR ''R''" by (auto simp: is_space_def)

lemma entry_at_group:
  assumes "entry_at s = Some (tok, rest)"
  shows "re_search label_pattern (take (length s - length rest) s) = Some tok"
proof -
  from entry_at_text[OF assms] obtain ds ws x where
    s: "s = ds @ [CHR ''.''] @ ws @ tok @ rest" and
    d: "\<forall>c\<in>set ds. is_digit c" and w: "\<forall>c\<in>set ws. is_space c" and
    tok: "tok = ''Response '' @ [x]" and up: "is_upper x" by blast
  let ?pre = "ds @ [CHR ''.''] @ ws"
  have "s = (?pre @ tok) @ rest" using s by simp
  then have "take (length s - length rest) s = ?pre @ tok"
    by (metis add_diff_cancel_right' append_eq_conv_conj length_append)
  moreover have "\<forall>c\<in>set ?pre. c \<noteq> CHR ''R''"
    using d w digit_not_R space_not_R by auto
  ultimately have "re_search label_pattern (take (length s - length rest) s) =
      re_search label_pattern tok" using search_skip by metis
  then show ?thesis using search_token[OF up] tok by simp
qed

lemma findall_groups:
  "match_groups (re_findall numbered_pattern s) = Inr (numbered_entries s)"
proof (induction s rule: numbered_entries.induct)
  case 1
  then show ?case by (simp add: match_numbered entry_at_def)
next
  case (2 c s)
  show ?case
  proof (cases "entry_at (c # s)")
    case None
    then show ?thesis using 2 by (simp add: match_numbered)
  next
    case (Some p)
    obtain tok rest where p: "p = (tok, rest)" by (cases p)
    have e: "entry_at (c # s) = Some (tok, rest)" using Some p by simp
    have m: "re_match numbered_pattern (c # s) = Some rest"
      using e by (simp add: match_numbered)
    have sh: "length rest < length (c # s)" using entry_at_shorter[OF e] .
    have f: "re_findall numbered_pattern (c # s) =
        take (length (c # s) - length rest) (c # s) # re_findall numbered_pattern rest"
      using m sh by simp
    have ih: "match_groups (re_findall numbered_pattern rest) = Inr (numbered_entries rest)"
      using "2.IH"(2)[OF e[symmetric, THEN sym]] e by simp
    show ?thesis
      unfolding f using entry_at_group[OF e] ih e by simp
  qed
qed

lemma numbered_entries_tokens:
  "l \<in> set (numbered_entries s) \<Longrightarrow>
     contains l s \<and> (\<exists>x. l = ''Response '' @ [x] \<and> is_upper x)"
proof (induction s rule: numbered_entries.induct)
  case 1
  then show ?case by simp
next
  case (2 c s)
  show ?case
  proof (cases "entry_at (c # s)")
    case None
    then have "l \<in> set (numbered_entries s)" using "2.prems" by simp
    then have "contains l s \<and> (\<exists>x. l = ''Response '' @ [x] \<and> is_upper x)"
      using "2.IH"(1) None by simp
    then show ?thesis by simp
  next
    case (Some p)
    obtain tok rest where p: "p = (tok, rest)" by (cases p)
    have e: "entry_at (c # s) = Some (tok, rest)" using Some p by simp
    from entry_at_text[OF e] obtain ds ws x where
      s: "c # s = ds @ [CHR ''.''] @ ws @ tok @ rest" and
      tok: "tok = ''Response '' @ [x]" and up: "is_upper x" by blast
    from "2.prems" e consider "l = tok" | "l \<in> set (numbered_entries rest)" by auto
    then show ?thesis
    proof cases
      case 1
      have "c # s = (ds @ [CHR ''.''] @ ws) @ tok @ rest" using s by simp
      then have "contains tok (c # s)" using contains_iff by blast
      then show ?thesis using 1 tok up by blast
    next
      case 2
      then have ih: "contains l rest \<and> (\<exists>x. l = ''Response '' @ [x] \<and> is_upper x)"
        using "2.IH"(2) e by simp
      then obtain a b where "rest = a @ l @ b" using contains_iff by blast
      then have "c # s = (ds @ [CHR ''.''] @ ws @ tok @ a) @ l @ b" using s by simp
      then have "contains l (c # s)" using contains_iff by blast
      then show ?thesis using ih by blast
    qed
  qed
qed

lemma parse_present:
  assumes "contains ''FINAL RANKING:'' t"
  shows "parse_ranking_from_text t = Inr (numbered_entries (after_last ''FINAL RANKING:'' t))"
proof -
  have c: "contains marker t" using assms by (simp add: marker_def)
  have ne: "marker \<noteq> []" by (simp add: marker_def)
  have no: "\<forall>t. take (length marker) t = marker \<longrightarrow> contains marker (tl t) \<longrightarrow>
               contains marker (drop (length marker) t)"
    using marker_no_overlap by blast
  have sl: "last (py_split marker [] t) = after_last marker t \<and> 2 \<le> length (py_split marker [] t)"
    using split_last_general[OF ne no c] .
  let ?tail = "after_last marker t"
  have "parse_ranking_from_text t =
      (if re_findall numbered_pattern ?tail \<noteq> [] then match_groups (re_findall numbered_pattern ?tail)
       else Inr [])"
    using assms sl by (simp add: parse_ranking_from_text_def Let_def marker_def)
  also have "\<dots> = match_groups (re_findall numbered_pattern ?tail)" by simp
  also have "\<dots> = Inr (numbered_entries ?tail)" by (rule findall_groups)
  finally show ?thesis by (simp add: marker_def)
qed

lemma parse_absent:
  "\<not> contains ''FINAL RANKING:'' t \<Longrightarrow> parse_ranking_from_text t = Inr []"
  by (simp add: parse_ranking_from_text_def)

subsection \<open>Facts about the scorer\<close>

definition parsed_tokens :: "string \<Rightarrow> string list" where
  "parsed_tokens t =
     (if contains ''FINAL RANKING:'' t then numbered_entries (after_last ''FINAL RANKING:'' t)
      else [])"

lemma parse_total: "parse_ranking_from_text t = Inr (parsed_tokens t)"
  using parse_present[of t] parse_absent[of t] by (simp add: parsed_tokens_def)

lemma dd_get_set: "dd_get (dd_set d k v) k' x = (if k' = k then v else dd_get d k' x)"
  by (induction d) auto

lemma dd_set_keys:
  "map fst (dd_set d k v) = (if k \<in> set (map fst d) then map fst d else map fst d @ [k])"
  by (induction d) (force split: if_splits)+

lemma dd_set_subset: "set (dd_set d k v) \<subseteq> insert (k, v) (set d)"
  by (induction d) (auto split: if_splits)

lemma dd_get_mem: "k \<in> set (map fst d) \<Longrightarrow> (k, dd_get d k x) \<in> set d"
  by (induction d) (force split: if_splits)+

lemma dd_get_absent: "k \<notin> set (map fst d) \<Longrightarrow> dd_get d k x = x"
  by (induction d) auto

lemma credit_score:
  "dd_get (fst (credit t s v)) m 0 = (if m = s then dd_get (fst t) s 0 + v else dd_get (fst t) m 0)"
  by (simp add: credit_def dd_add_def dd_get_set)

lemma score_ordinal_total:
  "dd_get (fst (score_ordinal l2m e n pos t ls)) m 0 =
     dd_get (fst t) m 0 +
     (\<Sum>i<length ls. if map_of l2m (ls ! i) = Some m
                      then real_of_int ((n - (pos + int i) + 1) * 10) * weight e m else 0)"
proof (induction ls arbitrary: pos t)
  case Nil
  then show ?case by simp
next
  case (Cons l ls)
  let ?g = "\<lambda>p i. if map_of l2m (ls ! i) = Some m
                      then real_of_int ((n - (p + int i) + 1) * 10) * weight e m else 0"
  have shift: "(\<Sum>i<length (l # ls). if map_of l2m ((l # ls) ! i) = Some m
                      then real_of_int ((n - (pos + int i) + 1) * 10) * weight e m else 0) =
      (if map_of l2m l = Some m then real_of_int ((n - pos + 1) * 10) * weight e m else 0) +
      (\<Sum>i<length ls. ?g (pos + 1) i)"
    by (simp add: sum.lessThan_Suc_shift algebra_simps del: sum.lessThan_Suc cong: if_cong)
  show ?case
  proof (cases "map_of l2m l")
    case None
    then show ?thesis unfolding shift using Cons.IH[of "pos + 1" t] by simp
  next
    case (Some s)
    let ?t' = "credit t s (real_of_int ((n - pos + 1) * 10) * weight e s)"
    have "dd_get (fst (score_ordinal l2m e n pos t (l # ls))) m 0 =
        dd_get (fst ?t') m 0 + (\<Sum>i<length ls. ?g (pos + 1) i)"
      using Some Cons.IH[of "pos + 1" ?t'] by (simp add: Let_def)
    then show ?thesis unfolding shift using Some by (simp add: credit_score)
  qed
qed

subsection \<open>The tally: keys, counts and what an output references\<close>

lemma fallback_total: "\<exists>pr. fallback_ranking r = Inr pr"
  by (simp add: fallback_ranking_def Let_def parse_total)

definition tally_ok :: "tally \<Rightarrow> bool" where
  "tally_ok t = (map fst (fst t) = map fst (snd t) \<and> (\<forall>kv\<in>set (snd t). 1 \<le> snd kv))"

lemma dd_get_nonneg:
  "\<forall>kv\<in>set d. 1 \<le> snd kv \<Longrightarrow> (0::int) \<le> dd_get d k 0"
  by (induction d) auto

lemma credit_ok: "tally_ok t \<Longrightarrow> tally_ok (credit t s v)"
proof -
  assume ok: "tally_ok t"
  have keys: "map fst (fst (credit t s v)) = map fst (snd (credit t s v))"
    using ok by (simp add: tally_ok_def credit_def dd_add_def dd_set_keys)
  have "0 \<le> dd_get (snd t) s 0"
    using ok dd_get_nonneg[of "snd t" s] by (simp add: tally_ok_def)
  then have "\<forall>kv\<in>insert (s, dd_get (snd t) s 0 + 1) (set (snd t)). 1 \<le> snd kv"
    using ok by (simp add: tally_ok_def)
  then have "\<forall>kv\<in>set (snd (credit t s v)). 1 \<le> snd kv"
    using dd_set_subset[of "snd t" s "dd_get (snd t) s 0 + 1"]
    by (auto simp: credit_def dd_add_def)
  then show ?thesis using keys by (simp add: tally_ok_def)
qed

lemma credit_keys:
  "set (map fst (fst (credit t s v))) = insert s (set (map fst (fst t)))"
  by (auto simp: credit_def dd_add_def dd_set_keys)

definition rubric_label :: "rubric_entry \<Rightarrow> string" where
  "rubric_label ev = ''Response '' @ get_or (response_label ev) []"

lemma score_rubric_ok: "tally_ok t \<Longrightarrow> tally_ok (score_rubric l2m e t evs)"
  by (induction evs arbitrary: t) (auto simp: Let_def credit_ok split: option.splits)

lemma score_rubric_keys:
  "set (map fst (fst (score_rubric l2m e t evs))) =
     set (map fst (fst t)) \<union> {m. \<exists>ev\<in>set evs. map_of l2m (rubric_label ev) = Some m}"
proof (induction evs arbitrary: t)
  case Nil
  then show ?case by simp
next
  case (Cons ev evs)
  show ?case
  proof (cases "map_of l2m (rubric_label ev)")
    case None
    then show ?thesis using Cons.IH[of t] by (auto simp: rubric_label_def Let_def)
  next
    case (Some s)
    let ?t' = "credit t s (eval_key ev * weight e s)"
    have step: "score_rubric l2m e t (ev # evs) = score_rubric l2m e ?t' evs"
      using Some by (simp add: rubric_label_def Let_def eval_key_def)
    have "set (map fst (fst (score_rubric l2m e t (ev # evs)))) =
        set (map fst (fst ?t')) \<union> {m. \<exists>ev\<in>set evs. map_of l2m (rubric_label ev) = Some m}"
      unfolding step by (rule Cons.IH)
    also have "set (map fst (fst ?t')) = insert s (set (map fst (fst t)))"
      by (rule credit_keys)
    finally show ?thesis using Some by auto
  qed
qed

lemma score_ordinal_ok: "tally_ok t \<Longrightarrow> tally_ok (score_ordinal l2m e n pos t ls)"
  by (induction ls arbitrary: t pos) (auto simp: Let_def credit_ok split: option.splits)

lemma score_ordinal_keys:
  "set (map fst (fst (score_ordinal l2m e n pos t ls))) =
     set (map fst (fst t)) \<union> {m. \<exists>l\<in>set ls. map_of l2m l = Some m}"
proof (induction ls arbitrary: t pos)
  case Nil
  then show ?case by simp
next
  case (Cons l ls)
  show ?case
  proof (cases "map_of l2m l")
    case None
    then show ?thesis using Cons.IH[of "pos + 1" t] by auto
  next
    case (Some s)
    let ?t' = "credit t s (real_of_int ((n - pos + 1) * 10) * weight e s)"
    have step: "score_ordinal l2m e n pos t (l # ls) = score_ordinal l2m e n (pos + 1) ?t' ls"
      using Some by (simp add: Let_def)
    have "set (map fst (fst (score_ordinal l2m e n pos t (l # ls)))) =
        set (map fst (fst ?t')) \<union> {m. \<exists>l\<in>set ls. map_of l2m l = Some m}"
      unfolding step by (rule Cons.IH)
    also have "set (map fst (fst ?t')) = insert s (set (map fst (fst t)))"
      by (rule credit_keys)
    finally show ?thesis using Some by auto
  qed
qed

definition references :: "(string \<times> string) list \<Rightarrow> stage2_result \<Rightarrow> string \<Rightarrow> bool" where
  "references l2m r m =
     (if s2_rubric r \<noteq> None \<and> s2_rubric r \<noteq> Some []
      then (\<exists>ev\<in>set (get_or (s2_rubric r) []). map_of l2m (rubric_label ev) = Some m)
      else (case fallback_ranking r of
              Inl e \<Rightarrow> False
            | Inr pr \<Rightarrow> (\<exists>l\<in>set pr. map_of l2m l = Some m)))"

lemma score_one_inv:
  "\<exists>t'. score_one l2m t r = Inr t' \<and> (tally_ok t \<longrightarrow> tally_ok t') \<and>
        set (map fst (fst t')) = set (map fst (fst t)) \<union> {m. references l2m r m}"
proof (cases "s2_rubric r \<noteq> None \<and> s2_rubric r \<noteq> Some []")
  case True
  let ?t' = "score_rubric l2m (s2_model r) t (get_or (s2_rubric r) [])"
  have so: "score_one l2m t r = Inr ?t'"
    using True by (simp add: score_one_def Let_def)
  have ref: "{m. references l2m r m} =
      {m. \<exists>ev\<in>set (get_or (s2_rubric r) []). map_of l2m (rubric_label ev) = Some m}"
    using True by (simp add: references_def)
  have "set (map fst (fst ?t')) = set (map fst (fst t)) \<union> {m. references l2m r m}"
    unfolding ref by (rule score_rubric_keys)
  then show ?thesis using so score_rubric_ok by blast
next
  case False
  obtain pr where pr: "fallback_ranking r = Inr pr" using fallback_total by blast
  let ?t' = "score_ordinal l2m (s2_model r) (int (length l2m)) 1 t pr"
  have so: "score_one l2m t r = Inr ?t'"
    using False pr by (auto simp: score_one_def Let_def)
  have ref: "{m. references l2m r m} = {m. \<exists>l\<in>set pr. map_of l2m l = Some m}"
    using False pr by (auto simp: references_def)
  have "set (map fst (fst ?t')) = set (map fst (fst t)) \<union> {m. references l2m r m}"
    unfolding ref by (rule score_ordinal_keys)
  then show ?thesis using so score_ordinal_ok by blast
qed

lemma score_all_inv:
  "\<exists>t'. score_all l2m t rs = Inr t' \<and> (tally_ok t \<longrightarrow> tally_ok t') \<and>
        set (map fst (fst t')) = set (map fst (fst t)) \<union> {m. \<exists>r\<in>set rs. references l2m r m}"
proof (induction rs arbitrary: t)
  case Nil
  then show ?case by simp
next
  case (Cons r rs)
  obtain t1 where t1: "score_one l2m t r = Inr t1" "tally_ok t \<longrightarrow> tally_ok t1"
      "set (map fst (fst t1)) = set (map fst (fst t)) \<union> {m. references l2m r m}"
    using score_one_inv[of l2m t r] by blast
  obtain t2 where t2: "score_all l2m t1 rs = Inr t2" "tally_ok t1 \<longrightarrow> tally_ok t2"
      "set (map fst (fst t2)) = set (map fst (fst t1)) \<union> {m. \<exists>r\<in>set rs. references l2m r m}"
    using Cons.IH[of t1] by blast
  have "score_all l2m t (r # rs) = Inr t2" using t1(1) t2(1) by simp
  moreover have "tally_ok t \<longrightarrow> tally_ok t2" using t1(2) t2(2) by blast
  moreover have "set (map fst (fst t2)) =
      set (map fst (fst t)) \<union> {m. \<exists>r'\<in>set (r # rs). references l2m r' m}"
    using t1(3) t2(3) by auto
  ultimately show ?case by blast
qed

lemma set_py_sorted_reverse: "set (py_sorted_reverse k xs) = set xs"
  by (simp add: py_sorted_reverse_def)

lemma aggregate_inv:
  "\<exists>out. calculate_aggregate_rankings rs l2m = Inr out \<and>
         (\<forall>a\<in>set out. 1 \<le> rankings_count a) \<and>
         agg_model ` set out = {m. \<exists>r\<in>set rs. references l2m r m}"
proof -
  have ok0: "tally_ok ([], [])" by (simp add: tally_ok_def)
  obtain t' where t': "score_all l2m ([], []) rs = Inr t'" "tally_ok t'"
      "set (map fst (fst t')) = {m. \<exists>r\<in>set rs. references l2m r m}"
    using score_all_inv[of l2m "([], [])" rs] ok0 by auto
  obtain sc ct where sc: "t' = (sc, ct)" by (cases t')
  let ?mk = "\<lambda>(model, total). \<lparr>agg_model = model, total_score = round2 total,
                 average_rank = round2 total, rankings_count = dd_get ct model 0\<rparr>"
  let ?out = "py_sorted_reverse total_score (map ?mk sc)"
  have c: "calculate_aggregate_rankings rs l2m = Inr ?out"
    using t'(1) sc by (simp add: calculate_aggregate_rankings_def)
  have keys: "map fst sc = map fst ct" and pos: "\<forall>kv\<in>set ct. 1 \<le> snd kv"
    using t'(2) sc by (simp_all add: tally_ok_def)
  have cnt: "\<forall>a\<in>set ?out. 1 \<le> rankings_count a"
  proof
    fix a assume "a \<in> set ?out"
    then obtain m tot where mt: "(m, tot) \<in> set sc" and a: "a = ?mk (m, tot)"
      by (auto simp: set_py_sorted_reverse)
    have "m \<in> set (map fst ct)" using mt keys by (metis fst_conv image_eqI set_map)
    then have "(m, dd_get ct m 0) \<in> set ct" by (rule dd_get_mem)
    then have "1 \<le> dd_get ct m 0" using pos by force
    then show "1 \<le> rankings_count a" using a by simp
  qed
  have "agg_model ` set ?out = set (map fst sc)"
    by (force simp: set_py_sorted_reverse)
  then have "agg_model ` set ?out = {m. \<exists>r\<in>set rs. references l2m r m}"
    using t'(3) sc by simp
  then show ?thesis using c cnt by blast
qed

definition mentions :: "(string \<times> string) list \<Rightarrow> stage2_result \<Rightarrow> string \<Rightarrow> bool" where
  "mentions l2m r m =
     ((\<exists>ev\<in>set (get_or (s2_rubric r) []). map_of l2m (rubric_label ev) = Some m) \<or>
      (case fallback_ranking r of
         Inl e \<Rightarrow> False
       | Inr pr \<Rightarrow> (\<exists>l\<in>set pr. map_of l2m l = Some m)))"

lemma references_mentions: "references l2m r m \<Longrightarrow> mentions l2m r m"
  by (auto simp: references_def mentions_def split: if_splits sum.splits)




subsection \<open>What each evaluator output adds to a model's total\<close>

text \<open>
  \<open>ordinal_points\<close> is the ordinal fallback rule of the specification for one evaluator
  and one model: over the 1-based positions \<open>p\<close> of the ranking whose label maps to the
  model, \<open>(n - p + 1) * 10\<close> times the self or peer weight, \<open>n\<close> the number of candidates.
  \<open>rubric_points\<close> is the rubric rule, and \<open>points\<close> chooses between them as the scorer does.
\<close>

definition ordinal_points :: "(string \<times> string) list \<Rightarrow> string \<Rightarrow> string list \<Rightarrow> string \<Rightarrow> real" where
  "ordinal_points label_to_model evaluator pr m =
     (\<Sum>p = 1..length pr.
        if map_of label_to_model (pr ! (p - 1)) = Some m
        then real_of_int ((int (length label_to_model) - int p + 1) * 10) *
             (if evaluator = m then 0.5 else 1.0)
        else 0)"

definition rubric_points :: "(string \<times> string) list \<Rightarrow> string \<Rightarrow> rubric_entry list \<Rightarrow> string \<Rightarrow> real" where
  "rubric_points label_to_model evaluator evs m =
     (\<Sum>ev\<leftarrow>evs.
        if map_of label_to_model (rubric_label ev) = Some m
        then eval_key ev * (if evaluator = m then 0.5 else 1.0)
        else 0)"

definition points :: "(string \<times> string) list \<Rightarrow> stage2_result \<Rightarrow> string \<Rightarrow> real" where
  "points label_to_model r m =
     (if s2_rubric r \<noteq> None \<and> s2_rubric r \<noteq> Some []
      then rubric_points label_to_model (s2_model r) (get_or (s2_rubric r) []) m
      else (case fallback_ranking r of
              Inl e \<Rightarrow> 0
            | Inr pr \<Rightarrow> ordinal_points label_to_model (s2_model r) pr m))"

lemma score_ordinal_points:
  "dd_get (fst (score_ordinal l2m e (int (length l2m)) 1 t pr)) m 0 =
     dd_get (fst t) m 0 + ordinal_points l2m e pr m"
proof -
  have "ordinal_points l2m e pr m =
        (\<Sum>i<length pr.
             if map_of l2m (pr ! i) = Some m
             then real_of_int ((int (length l2m) - (1 + int i) + 1) * 10) * weight e m
             else 0)"
    by (simp add: ordinal_points_def weight_def sum.atLeast1_atMost_eq cong: if_cong)
  then show ?thesis
    using score_ordinal_total[of l2m e "int (length l2m)" 1 t pr m] by simp
qed

lemma score_rubric_points:
  "dd_get (fst (score_rubric l2m e t evs)) m 0 = dd_get (fst t) m 0 + rubric_points l2m e evs m"
proof (induction evs arbitrary: t)
  case Nil
  then show ?case by (simp add: rubric_points_def)
next
  case (Cons ev evs)
  have rp: "rubric_points l2m e (ev # evs) m =
      (if map_of l2m (rubric_label ev) = Some m then eval_key ev * weight e m else 0) +
      rubric_points l2m e evs m"
    by (simp add: rubric_points_def weight_def)
  show ?case
  proof (cases "map_of l2m (rubric_label ev)")
    case None
    have "score_rubric l2m e t (ev # evs) = score_rubric l2m e t evs"
      using None by (simp add: rubric_label_def Let_def)
    then show ?thesis unfolding rp using None Cons.IH[of t] by simp
  next
    case (Some s)
    let ?t' = "credit t s (eval_key ev * weight e s)"
    have "score_rubric l2m e t (ev # evs) = score_rubric l2m e ?t' evs"
      using Some by (simp add: rubric_label_def Let_def eval_key_def)
    then have "dd_get (fst (score_rubric l2m e t (ev # evs))) m 0 =
        dd_get (fst ?t') m 0 + rubric_points l2m e evs m"
      using Cons.IH[of ?t'] by simp
    then show ?thesis unfolding rp using Some by (simp add: credit_score)
  qed
qed

lemma score_one_points:
  "\<exists>t'. score_one l2m t r = Inr t' \<and> (\<forall>m. dd_get (fst t') m 0 = dd_get (fst t) m 0 + points l2m r m)"
proof (cases "s2_rubric r \<noteq> None \<and> s2_rubric r \<noteq> Some []")
  case True
  let ?t' = "score_rubric l2m (s2_model r) t (get_or (s2_rubric r) [])"
  have so: "score_one l2m t r = Inr ?t'"
    using True by (simp add: score_one_def Let_def)
  have "\<forall>m. dd_get (fst ?t') m 0 = dd_get (fst t) m 0 + points l2m r m"
    using True by (simp add: points_def score_rubric_points)
  then show ?thesis using so by blast
next
  case False
  obtain pr where pr: "fallback_ranking r = Inr pr" using fallback_total by blast
  let ?t' = "score_ordinal l2m (s2_model r) (int (length l2m)) 1 t pr"
  have so: "score_one l2m t r = Inr ?t'"
    using False pr by (auto simp: score_one_def Let_def)
  have "\<forall>m. dd_get (fst ?t') m 0 = dd_get (fst t) m 0 + points l2m r m"
    using False pr by (auto simp: points_def score_ordinal_points)
  then show ?thesis using so by blast
qed

lemma score_all_points:
  "\<exists>t'. score_all l2m t rs = Inr t' \<and>
        (\<forall>m. dd_get (fst t') m 0 = dd_get (fst t) m 0 + (\<Sum>r\<leftarrow>rs. points l2m r m))"
proof (induction rs arbitrary: t)
  case Nil
  then show ?case by simp
next
  case (Cons r rs)
  obtain t1 where t1: "score_one l2m t r = Inr t1"
      "\<forall>m. dd_get (fst t1) m 0 = dd_get (fst t) m 0 + points l2m r m"
    using score_one_points[of l2m t r] by blast
  obtain t2 where t2: "score_all l2m t1 rs = Inr t2"
      "\<forall>m. dd_get (fst t2) m 0 = dd_get (fst t1) m 0 + (\<Sum>r\<leftarrow>rs. points l2m r m)"
    using Cons.IH[of t1] by blast
  have "score_all l2m t (r # rs) = Inr t2" using t1(1) t2(1) by simp
  moreover have "\<forall>m. dd_get (fst t2) m 0 =
      dd_get (fst t) m 0 + (\<Sum>r'\<leftarrow>r # rs. points l2m r' m)"
    using t1(2) t2(2) by simp
  ultimately show ?case by blast
qed

lemma dd_set_distinct: "distinct (map fst d) \<Longrightarrow> distinct (map fst (dd_set d k v))"
  by (simp add: dd_set_keys)

lemma credit_distinct:
  "distinct (map fst (fst t)) \<Longrightarrow> distinct (map fst (fst (credit t s v)))"
  by (simp add: credit_def dd_add_def dd_set_distinct)

lemma score_rubric_distinct:
  "distinct (map fst (fst t)) \<Longrightarrow> distinct (map fst (fst (score_rubric l2m e t evs)))"
  by (induction evs arbitrary: t) (auto simp: Let_def credit_distinct split: option.splits)

lemma score_ordinal_distinct:
  "distinct (map fst (fst t)) \<Longrightarrow> distinct (map fst (fst (score_ordinal l2m e n pos t ls)))"
  by (induction ls arbitrary: t pos) (auto simp: Let_def credit_distinct split: option.splits)

lemma score_one_distinct:
  "distinct (map fst (fst t)) \<Longrightarrow> score_one l2m t r = Inr t' \<Longrightarrow> distinct (map fst (fst t'))"
  by (auto simp: score_one_def Let_def score_rubric_distinct score_ordinal_distinct
      split: if_splits sum.splits)

lemma score_all_distinct:
  "distinct (map fst (fst t)) \<Longrightarrow> score_all l2m t rs = Inr t' \<Longrightarrow> distinct (map fst (fst t'))"
proof (induction rs arbitrary: t)
  case Nil
  then show ?case by simp
next
  case (Cons r rs)
  then show ?case by (auto split: sum.splits dest: score_one_distinct)
qed

lemma dd_get_distinct: "distinct (map fst d) \<Longrightarrow> (k, v) \<in> set d \<Longrightarrow> dd_get d k x = v"
  by (induction d) (force split: if_splits)+

lemma aggregate_totals:
  "\<exists>out. calculate_aggregate_rankings rs l2m = Inr out \<and>
     agg_model ` set out = {m. \<exists>r\<in>set rs. references l2m r m} \<and>
     (\<forall>a\<in>set out. total_score a = round2 (\<Sum>r\<leftarrow>rs. points l2m r (agg_model a)))"
proof -
  obtain t' where t': "score_all l2m ([], []) rs = Inr t'"
      "\<forall>m. dd_get (fst t') m 0 = dd_get (fst (([], [])::tally)) m 0 + (\<Sum>r\<leftarrow>rs. points l2m r m)"
    using score_all_points[of l2m "([], [])" rs] by blast
  have d: "distinct (map fst (fst t'))"
    using score_all_distinct[OF _ t'(1)] by simp
  obtain k where k: "score_all l2m ([], []) rs = Inr k"
      "set (map fst (fst k)) = set (map fst (fst (([], [])::tally))) \<union>
         {m. \<exists>r\<in>set rs. references l2m r m}"
    using score_all_inv[of l2m "([], [])" rs] by blast
  have kt: "k = t'" using k(1) t'(1) by simp
  obtain sc ct where sc: "t' = (sc, ct)" by (cases t')
  let ?mk = "\<lambda>(model, total). \<lparr>agg_model = model, total_score = round2 total,
                 average_rank = round2 total, rankings_count = dd_get ct model 0\<rparr>"
  let ?out = "py_sorted_reverse total_score (map ?mk sc)"
  have c: "calculate_aggregate_rankings rs l2m = Inr ?out"
    using t'(1) sc by (simp add: calculate_aggregate_rankings_def)
  have "agg_model ` set ?out = set (map fst sc)"
    by (force simp: set_py_sorted_reverse)
  then have models: "agg_model ` set ?out = {m. \<exists>r\<in>set rs. references l2m r m}"
    using k(2) kt sc by simp
  have tot: "\<forall>a\<in>set ?out. total_score a = round2 (\<Sum>r\<leftarrow>rs. points l2m r (agg_model a))"
  proof
    fix a assume "a \<in> set ?out"
    then obtain m v where mv: "(m, v) \<in> set sc" and a: "a = ?mk (m, v)"
      by (auto simp: set_py_sorted_reverse)
    have "dd_get sc m 0 = v" using d sc mv dd_get_distinct by fastforce
    then have "v = (\<Sum>r\<leftarrow>rs. points l2m r m)" using t'(2) sc by simp
    then show "total_score a = round2 (\<Sum>r\<leftarrow>rs. points l2m r (agg_model a))"
      using a by simp
  qed
  show ?thesis using c models tot by blast
qed

subsection \<open>Facts about classification and the presets\<close>

lemma preset_names: "map fst COUNCIL_PRESETS =
    [''CODING'', ''MATH'', ''CREATIVE_WRITING'', ''FACTUAL_RESEARCH'', ''REASONING'', ''GENERAL'']"
  by (simp add: COUNCIL_PRESETS_def)

lemma general_preset: "map_of COUNCIL_PRESETS ''GENERAL'' = Some COUNCIL_MODELS"
  by (simp add: COUNCIL_PRESETS_def)

lemma classify_log:
  "snd (classify_query api q) = [Query_model ROUTER_MODEL [(''user'', classify_prompt q)] 10]"
  by (simp add: classify_query_def Let_def)

lemma classify_in_presets: "fst (classify_query api q) \<in> set (map fst COUNCIL_PRESETS)"
proof -
  have g: "''GENERAL'' \<in> set (map fst COUNCIL_PRESETS)" by (simp add: preset_names)
  have f: "(case find P (map fst COUNCIL_PRESETS) of Some cat \<Rightarrow> cat | None \<Rightarrow> ''GENERAL'')
      \<in> set (map fst COUNCIL_PRESETS)" for P
  proof (cases "find P (map fst COUNCIL_PRESETS)")
    case None
    then show ?thesis using g by simp
  next
    case (Some cat)
    then have "cat \<in> set (map fst COUNCIL_PRESETS)"
      by (metis find_Some_iff nth_mem)
    then show ?thesis using Some by simp
  qed
  show ?thesis
    unfolding classify_query_def Let_def fst_conv
    using g f by (auto split: option.splits simp del: set_map)
qed

lemma preset_nonempty:
  "cat \<in> set (map fst COUNCIL_PRESETS) \<Longrightarrow>
     \<exists>panel. map_of COUNCIL_PRESETS cat = Some panel \<and> panel \<noteq> []"
  by (auto simp: COUNCIL_PRESETS_def COUNCIL_MODELS_def)

lemma preset_not_manual: "cat \<in> set (map fst COUNCIL_PRESETS) \<Longrightarrow> cat \<noteq> ''MANUAL_OVERRIDE''"
  by (auto simp: COUNCIL_PRESETS_def)

lemma get_council_classified:
  assumes "user_override = None \<or> user_override = Some []"
  shows "get_council_for_query api q user_override =
     (Inr (get_or (map_of COUNCIL_PRESETS (fst (classify_query api q))) COUNCIL_MODELS,
           fst (classify_query api q)),
      snd (classify_query api q))"
  using assms
  by (auto simp: get_council_for_query_def general_preset get_or_def split: prod.splits)

lemma get_council_total:
  "\<exists>resolved cat log0. get_council_for_query api q override = (Inr (resolved, cat), log0) \<and>
     (log0 = [] \<or> log0 = [Query_model ROUTER_MODEL [(''user'', classify_prompt q)] 10])"
proof (cases "override = None \<or> override = Some []")
  case True
  then show ?thesis
    using get_council_classified[OF True, of api q] classify_log[of api q] by simp
next
  case False
  then show ?thesis by (auto simp: get_council_for_query_def get_or_def)
qed

lemma stage2_entry_total: "\<exists>entry. stage2_entry json_loads model full_text = Inr entry"
  by (auto simp: stage2_entry_def Let_def parse_total split: json_data.splits prod.splits)

lemma stage2_entries_total: "\<exists>entries. stage2_entries json_loads rs = Inr entries"
proof (induction rs)
  case Nil
  then show ?case by simp
next
  case (Cons a rs)
  obtain model r where a: "a = (model, r)" by (cases a)
  obtain entry where e: "stage2_entry json_loads model (content_of r) = Inr entry"
    using stage2_entry_total by blast
  show ?case using Cons a e by auto
qed

lemma aggregate_total: "\<exists>out. calculate_aggregate_rankings rs l2m = Inr out"
  using aggregate_inv[of rs l2m] by blast

subsection \<open>Facts about Round 2\<close>






lemma label_tokens_all:
  "\<forall>ev\<in>set xs. response_label ev \<noteq> None \<Longrightarrow>
     label_tokens xs = map (\<lambda>ev. ''Response '' @ get_or (response_label ev) []) xs"
  by (induction xs) (auto simp: get_or_def split: option.splits)






lemma rubric_points_no_labels:
  "\<forall>ev\<in>set evs. response_label ev = None \<Longrightarrow> map_of l2m ''Response '' = None \<Longrightarrow>
     rubric_points l2m e evs m = 0"
  by (induction evs) (auto simp: rubric_points_def rubric_label_def get_or_def)



subsection \<open>Claims about the text-ranking parse\<close>

lemma after_last_is_last:
  "sep \<noteq> [] \<Longrightarrow> contains sep t \<Longrightarrow>
     (\<exists>pre. t = pre @ sep @ after_last sep t \<and> \<not> contains sep (tl (sep @ after_last sep t)))"
proof (induction t)
  case Nil
  then show ?case by simp
next
  case (Cons c cs)
  show ?case
  proof (cases "contains sep cs")
    case True
    then obtain pre where "cs = pre @ sep @ after_last sep cs"
      and n: "\<not> contains sep (tl (sep @ after_last sep cs))" using Cons.IH Cons.prems(1) by blast
    then have "c # cs = (c # pre) @ sep @ after_last sep (c # cs)" using True by simp
    then show ?thesis using n True by (metis after_last.simps(2))
  next
    case False
    then have st: "take (length sep) (c # cs) = sep" using Cons.prems(2) by simp
    have al: "after_last sep (c # cs) = drop (length sep) (c # cs)" using False by simp
    have e: "c # cs = sep @ after_last sep (c # cs)"
      unfolding al using st by (metis append_take_drop_id)
    then have "c # cs = [] @ sep @ after_last sep (c # cs)" by simp
    moreover have "\<not> contains sep (tl (sep @ after_last sep (c # cs)))"
      using e False by (metis list.sel(3))
    ultimately show ?thesis by blast
  qed
qed

text \<open>
  Claim C1. On a text that contains the marker \<^verbatim>\<open>FINAL RANKING:\<close>, the text-ranking parse
  returns exactly the \<^verbatim>\<open>Response <letter>\<close> tokens of the numbered entries found in the
  text after the last occurrence of the marker, in textual order; a label that is not
  mentioned in that tail (one mentioned only before the marker) is never in the result;
  on a text without the marker the parse returns the empty list. The parse never raises.
\<close>

theorem parse_ranking_from_text_spec:
  "(contains ''FINAL RANKING:'' t \<longrightarrow>
      parse_ranking_from_text t = Inr (numbered_entries (after_last ''FINAL RANKING:'' t)) \<and>
      (\<forall>l. \<not> contains l (after_last ''FINAL RANKING:'' t) \<longrightarrow>
           (\<forall>r. parse_ranking_from_text t = Inr r \<longrightarrow> l \<notin> set r))) \<and>
   (\<not> contains ''FINAL RANKING:'' t \<longrightarrow> parse_ranking_from_text t = Inr [])"
  using parse_present[of t] parse_absent[of t] numbered_entries_tokens
  by (metis Inr_inject)

definition critique_text :: string where
  "critique_text = ''Response A is okay, but Response B is better.'' @ [CHR 0x0A] @
     ''FINAL RANKING:'' @ [CHR 0x0A] @ ''1. Response B'' @ [CHR 0x0A] @ ''2. Response C'' @ [CHR 0x0A]"

theorem parse_ranking_from_text_spec_witness:
  "contains ''FINAL RANKING:'' critique_text \<and>
   \<not> contains ''Response A'' (after_last ''FINAL RANKING:'' critique_text) \<and>
   parse_ranking_from_text critique_text = Inr [''Response B'', ''Response C''] \<and>
   ''Response A'' \<notin> set [''Response B'', ''Response C''] \<and>
   \<not> contains ''FINAL RANKING:'' ''I think Response A is the best'' \<and>
   parse_ranking_from_text ''I think Response A is the best'' = Inr []"
proof -
  have c: "contains ''FINAL RANKING:'' critique_text" unfolding critique_text_def by code_simp
  have n: "\<not> contains ''FINAL RANKING:'' ''I think Response A is the best''" by code_simp
  have a: "\<not> contains ''Response A'' (after_last ''FINAL RANKING:'' critique_text)"
    unfolding critique_text_def by code_simp
  have e: "numbered_entries (after_last ''FINAL RANKING:'' critique_text) =
      [''Response B'', ''Response C'']"
    unfolding critique_text_def by code_simp
  have p: "parse_ranking_from_text critique_text = Inr [''Response B'', ''Response C'']"
    using parse_ranking_from_text_spec[of critique_text] c e by simp
  have q: "parse_ranking_from_text ''I think Response A is the best'' = Inr []"
    using parse_ranking_from_text_spec[of "''I think Response A is the best''"] n by blast
  show ?thesis using c n a p q by simp
qed

definition label_of :: "string \<Rightarrow> string" where
  "label_of m = drop (length m - 10) m"

lemma entry_at_label:
  assumes "entry_at s = Some (tok, rest)"
  shows "label_of (take (length s - length rest) s) = tok"
proof -
  from entry_at_text[OF assms] obtain ds ws x where
    s: "s = ds @ [CHR ''.''] @ ws @ tok @ rest" and
    tok: "tok = ''Response '' @ [x]" by blast
  let ?pre = "ds @ [CHR ''.''] @ ws"
  have "s = (?pre @ tok) @ rest" using s by simp
  then have tk: "take (length s - length rest) s = ?pre @ tok"
    by (metis add_diff_cancel_right' append_eq_conv_conj length_append)
  have "length tok = 10" using tok by simp
  then have "drop (length (?pre @ tok) - 10) (?pre @ tok) = tok" by simp
  then show ?thesis unfolding label_of_def tk .
qed

lemma findall_labels:
  "map label_of (re_findall numbered_pattern s) = numbered_entries s"
proof (induction s rule: numbered_entries.induct)
  case 1
  then show ?case by (simp add: match_numbered entry_at_def)
next
  case (2 c s)
  show ?case
  proof (cases "entry_at (c # s)")
    case None
    then show ?thesis using 2 by (simp add: match_numbered)
  next
    case (Some p)
    obtain tok rest where p: "p = (tok, rest)" by (cases p)
    have e: "entry_at (c # s) = Some (tok, rest)" using Some p by simp
    have m: "re_match numbered_pattern (c # s) = Some rest"
      using e by (simp add: match_numbered)
    have sh: "length rest < length (c # s)" using entry_at_shorter[OF e] .
    have f: "re_findall numbered_pattern (c # s) =
        take (length (c # s) - length rest) (c # s) # re_findall numbered_pattern rest"
      using m sh by simp
    have ih: "map label_of (re_findall numbered_pattern rest) = numbered_entries rest"
      using "2.IH"(2) e by simp
    show ?thesis
      unfolding f using entry_at_label[OF e] ih e by simp
  qed
qed

text \<open>
  Claim C5, as the code has it. For every evaluator text the parse returns one token for
  every numbered entry that \<^verbatim>\<open>re.findall\<close> matches in the tail after the last marker, in
  textual order, and nothing is deduplicated: the result is the list of matches, each
  cut down to its final \<^verbatim>\<open>Response <letter>\<close> (\<open>label_of\<close>), so a label matched in
  several entries is returned once per entry.
\<close>

theorem parse_keeps_repeated_labels:
  "parse_ranking_from_text t =
     Inr (if contains ''FINAL RANKING:'' t
          then map label_of (re_findall numbered_pattern (after_last ''FINAL RANKING:'' t))
          else [])"
  using parse_present[of t] parse_absent[of t] by (simp add: findall_labels)

definition repeated_text :: string where
  "repeated_text = ''Response C is weak.'' @ [CHR 0x0A] @ ''FINAL RANKING:'' @ [CHR 0x0A] @
     ''1. Response A'' @ [CHR 0x0A] @ ''2. Response B'' @ [CHR 0x0A] @ ''3. Response A''"

theorem parse_keeps_repeated_labels_witness:
  "contains ''FINAL RANKING:'' repeated_text \<and>
   re_findall numbered_pattern (after_last ''FINAL RANKING:'' repeated_text) =
     [''1. Response A'', ''2. Response B'', ''3. Response A''] \<and>
   parse_ranking_from_text repeated_text = Inr [''Response A'', ''Response B'', ''Response A'']"
proof -
  have c: "contains ''FINAL RANKING:'' repeated_text" unfolding repeated_text_def by code_simp
  have f: "re_findall numbered_pattern (after_last ''FINAL RANKING:'' repeated_text) =
     [''1. Response A'', ''2. Response B'', ''3. Response A'']"
    unfolding repeated_text_def by code_simp
  have "parse_ranking_from_text repeated_text =
      Inr (map label_of [''1. Response A'', ''2. Response B'', ''3. Response A''])"
    using parse_keeps_repeated_labels[of repeated_text] c f by simp
  then show ?thesis using c f by (simp add: label_of_def)
qed

text \<open>
  The parse of a tail that lists the same label in two numbered entries: the label is
  returned twice.
\<close>

theorem parse_not_deduplicated:
  "parse_ranking_from_text
     (''FINAL RANKING:'' @ [CHR 0x0A] @ ''1. Response A'' @ [CHR 0x0A] @ ''2. Response A'') =
     Inr [''Response A'', ''Response A''] \<and>
   \<not> distinct [''Response A'', ''Response A'']"
  by code_simp

subsection \<open>Claims about the aggregate scorer\<close>

text \<open>
  Claim C2. The scorer returns a list whose models are the ones some evaluator output
  refers to, and the total of each is the rounded sum, over all evaluator outputs in the
  input, of what each output adds (\<open>points\<close>). For every evaluator output without a rubric
  whose parsed ordinal ranking is \<open>pr\<close>, what it adds to a model \<open>m\<close> is, for each 1-based
  position \<open>p\<close> of \<open>pr\<close> whose label maps to \<open>m\<close>, the amount \<open>(n - p + 1) * 10\<close>, where \<open>n\<close>
  is the number of candidates (the size of the label map), weighted 0.5 when the
  evaluator is \<open>m\<close> and 1.0 otherwise. With one evaluator \<open>e\<close> and two candidates, \<open>e\<close>
  ranking itself first, both candidates end with total score 10.
\<close>

theorem ordinal_fallback_scoring:
  "(\<exists>out. calculate_aggregate_rankings rs label_to_model = Inr out \<and>
      agg_model ` set out = {m. \<exists>r\<in>set rs. references label_to_model r m} \<and>
      (\<forall>a\<in>set out.
          total_score a = round2 (\<Sum>r\<leftarrow>rs. points label_to_model r (agg_model a)))) \<and>
   (s2_rubric r \<in> {None, Some []} \<longrightarrow> fallback_ranking r = Inr pr \<longrightarrow>
      points label_to_model r m =
        (\<Sum>p = 1..length pr.
           if map_of label_to_model (pr ! (p - 1)) = Some m
           then real_of_int ((int (length label_to_model) - int p + 1) * 10) *
                (if s2_model r = m then 0.5 else 1.0)
           else 0)) \<and>
   (e \<noteq> m2 \<longrightarrow>
      calculate_aggregate_rankings
        [\<lparr>s2_model = e, s2_ranking = txt,
          s2_parsed_ranking = Some [''Response A'', ''Response B''], s2_rubric = None\<rparr>]
        [(''Response A'', e), (''Response B'', m2)] =
      Inr [\<lparr>agg_model = e, total_score = 10, average_rank = 10, rankings_count = 1\<rparr>,
           \<lparr>agg_model = m2, total_score = 10, average_rank = 10, rankings_count = 1\<rparr>])"
proof (intro conjI impI)
  show "\<exists>out. calculate_aggregate_rankings rs label_to_model = Inr out \<and>
      agg_model ` set out = {m. \<exists>r\<in>set rs. references label_to_model r m} \<and>
      (\<forall>a\<in>set out.
          total_score a = round2 (\<Sum>r\<leftarrow>rs. points label_to_model r (agg_model a)))"
    by (rule aggregate_totals)
next
  assume "s2_rubric r \<in> {None, Some []}" and "fallback_ranking r = Inr pr"
  then show "points label_to_model r m =
        (\<Sum>p = 1..length pr.
           if map_of label_to_model (pr ! (p - 1)) = Some m
           then real_of_int ((int (length label_to_model) - int p + 1) * 10) *
                (if s2_model r = m then 0.5 else 1.0)
           else 0)"
    by (auto simp: points_def ordinal_points_def)
next
  assume ne: "e \<noteq> m2"
  have r10: "round2 10 = 10" by (simp add: round2_def py_round_def)
  show "calculate_aggregate_rankings
        [\<lparr>s2_model = e, s2_ranking = txt,
          s2_parsed_ranking = Some [''Response A'', ''Response B''], s2_rubric = None\<rparr>]
        [(''Response A'', e), (''Response B'', m2)] =
      Inr [\<lparr>agg_model = e, total_score = 10, average_rank = 10, rankings_count = 1\<rparr>,
           \<lparr>agg_model = m2, total_score = 10, average_rank = 10, rankings_count = 1\<rparr>]"
    using ne
    by (simp add: calculate_aggregate_rankings_def score_one_def fallback_ranking_def get_or_def
        Let_def credit_def dd_add_def weight_def py_sorted_reverse_def r10)
qed

text \<open>
  The scenario of \<^verbatim>\<open>test_aggregate_rankings_self_score_discounted\<close>, and a second evaluator
  whose stored ranking is empty, so that the scorer reads its raw text again.
\<close>

definition test_ranking :: stage2_result where
  "test_ranking = \<lparr>s2_model = ''model_1'',
      s2_ranking = Some (''FINAL RANKING:'' @ [CHR 0x0A] @ ''1. Response A'' @ [CHR 0x0A] @ ''2. Response B''),
      s2_parsed_ranking = Some [''Response A'', ''Response B''], s2_rubric = None\<rparr>"

definition second_ranking :: stage2_result where
  "second_ranking = \<lparr>s2_model = ''model_2'',
      s2_ranking = Some (''FINAL RANKING:'' @ [CHR 0x0A] @ ''1. Response B'' @ [CHR 0x0A] @ ''2. Response A''),
      s2_parsed_ranking = Some [], s2_rubric = Some []\<rparr>"

definition test_labels :: "(string \<times> string) list" where
  "test_labels = [(''Response A'', ''model_1''), (''Response B'', ''model_2'')]"


theorem ordinal_fallback_scoring_witness:
  "s2_rubric test_ranking \<in> {None, Some []} \<and>
   fallback_ranking test_ranking = Inr [''Response A'', ''Response B''] \<and>
   s2_rubric second_ranking \<in> {None, Some []} \<and>
   fallback_ranking second_ranking = Inr [''Response B'', ''Response A''] \<and>
   points test_labels test_ranking ''model_1'' = 10 \<and>
   points test_labels second_ranking ''model_1'' = 10 \<and>
   calculate_aggregate_rankings [test_ranking, second_ranking] test_labels =
     Inr [\<lparr>agg_model = ''model_1'', total_score = 20, average_rank = 20, rankings_count = 2\<rparr>,
          \<lparr>agg_model = ''model_2'', total_score = 20, average_rank = 20, rankings_count = 2\<rparr>] \<and>
   (20::real) = round2 (points test_labels test_ranking ''model_1'' +
                        points test_labels second_ranking ''model_1'') \<and>
   ''model_1'' \<noteq> ''model_2'' \<and>
   calculate_aggregate_rankings [test_ranking] test_labels =
     Inr [\<lparr>agg_model = ''model_1'', total_score = 10, average_rank = 10, rankings_count = 1\<rparr>,
          \<lparr>agg_model = ''model_2'', total_score = 10, average_rank = 10, rankings_count = 1\<rparr>]"
proof -
  define x1 where "x1 = \<lparr>agg_model = ''model_1'', total_score = 20, average_rank = 20,
      rankings_count = 2::int\<rparr>"
  define x2 where "x2 = \<lparr>agg_model = ''model_2'', total_score = 20, average_rank = 20,
      rankings_count = 2::int\<rparr>"
  have h1: "s2_rubric test_ranking \<in> {None, Some []}" by (simp add: test_ranking_def)
  have h2: "fallback_ranking test_ranking = Inr [''Response A'', ''Response B'']"
    by (simp add: test_ranking_def fallback_ranking_def get_or_def)
  have g1: "s2_rubric second_ranking \<in> {None, Some []}" by (simp add: second_ranking_def)
  have g2: "fallback_ranking second_ranking = Inr [''Response B'', ''Response A'']"
    by code_simp
  have h3: "''model_1'' \<noteq> ''model_2''" by simp
  have two: "{1..length [a, b]} = {1, 2::nat}" for a b :: string by auto
  have p1: "points test_labels test_ranking ''model_1'' = 10"
    using ordinal_fallback_scoring[THEN conjunct2, THEN conjunct1, rule_format, OF h1 h2,
        of test_labels "''model_1''"]
    unfolding two by (simp add: test_labels_def test_ranking_def)
  have p2: "points test_labels second_ranking ''model_1'' = 10"
    using ordinal_fallback_scoring[THEN conjunct2, THEN conjunct1, rule_format, OF g1 g2,
        of test_labels "''model_1''"]
    unfolding two by (simp add: test_labels_def second_ranking_def)
  have r20: "round2 20 = 20" by (simp add: round2_def py_round_def)
  have s1: "score_one test_labels t test_ranking =
      Inr (score_ordinal test_labels ''model_1'' 2 1 t [''Response A'', ''Response B''])" for t
    using h2 by (simp add: score_one_def Let_def test_ranking_def test_labels_def)
  have s2: "score_one test_labels t second_ranking =
      Inr (score_ordinal test_labels ''model_2'' 2 1 t [''Response B'', ''Response A''])" for t
    using g2 by (simp add: score_one_def Let_def second_ranking_def test_labels_def)
  have sa: "score_all test_labels ([], []) [test_ranking, second_ranking] =
      Inr (score_ordinal test_labels ''model_2'' 2 1
             (score_ordinal test_labels ''model_1'' 2 1 ([], [])
                [''Response A'', ''Response B''])
             [''Response B'', ''Response A''])"
    by (simp add: s1 s2)
  have ev: "score_ordinal test_labels ''model_2'' 2 1
             (score_ordinal test_labels ''model_1'' 2 1 ([], [])
                [''Response A'', ''Response B''])
             [''Response B'', ''Response A''] =
      ([(''model_1'', 20), (''model_2'', 20)], [(''model_1'', 2), (''model_2'', 2)])"
    by (simp add: test_labels_def Let_def credit_def dd_add_def weight_def)
  have c: "calculate_aggregate_rankings [test_ranking, second_ranking] test_labels = Inr [x1, x2]"
    unfolding calculate_aggregate_rankings_def sa ev
    by (simp add: py_sorted_reverse_def r20 x1_def x2_def)
  obtain out where o: "calculate_aggregate_rankings [test_ranking, second_ranking] test_labels = Inr out \<and>
      agg_model ` set out = {m. \<exists>r\<in>set [test_ranking, second_ranking]. references test_labels r m} \<and>
      (\<forall>a\<in>set out. total_score a =
          round2 (\<Sum>r\<leftarrow>[test_ranking, second_ranking]. points test_labels r (agg_model a)))"
    using ordinal_fallback_scoring[THEN conjunct1, of "[test_ranking, second_ranking]" test_labels] ..
  have eq: "out = [x1, x2]" using o c by simp
  have mem: "x1 \<in> set out" unfolding eq by simp
  have all: "\<forall>a\<in>set out. total_score a =
          round2 (\<Sum>r\<leftarrow>[test_ranking, second_ranking]. points test_labels r (agg_model a))"
    using o by (rule conjunct2[THEN conjunct2])
  have "total_score x1 =
      round2 (\<Sum>r\<leftarrow>[test_ranking, second_ranking]. points test_labels r (agg_model x1))"
    using all mem by (rule bspec)
  then have t: "(20::real) = round2 (points test_labels test_ranking ''model_1'' +
                        points test_labels second_ranking ''model_1'')"
    by (simp add: x1_def)
  have one: "calculate_aggregate_rankings [test_ranking] test_labels =
     Inr [\<lparr>agg_model = ''model_1'', total_score = 10, average_rank = 10, rankings_count = 1\<rparr>,
          \<lparr>agg_model = ''model_2'', total_score = 10, average_rank = 10, rankings_count = 1\<rparr>]"
    using ordinal_fallback_scoring[THEN conjunct2, THEN conjunct2, of "''model_1''" "''model_2''"
        "s2_ranking test_ranking"] h3
    by (simp add: test_ranking_def test_labels_def)
  show ?thesis by (intro conjI h1 h2 g1 g2 p1 p2 c[unfolded x1_def x2_def] t h3 one)
qed

text \<open>
  Claim C10. The scorer always returns; every entry of its output has an evaluation count
  of at least 1; the models listed are exactly those that a rubric entry or a parsed
  ordinal ranking used by the scorer maps to (\<open>references\<close>); and a model that no
  evaluator's rubric entry and no evaluator's parsed ordinal ranking maps to (\<open>mentions\<close>)
  is not in the output at all. The parsed ordinal ranking is the one the scorer uses: the
  stored one, or the raw text parsed again when the stored one is empty.
\<close>

theorem aggregate_counts_positive:
  "\<exists>out. calculate_aggregate_rankings rs l2m = Inr out \<and>
     (\<forall>a\<in>set out. 1 \<le> rankings_count a) \<and>
     agg_model ` set out = {m. \<exists>r\<in>set rs. references l2m r m} \<and>
     (\<forall>m. (\<forall>r\<in>set rs. \<not> mentions l2m r m) \<longrightarrow> m \<notin> agg_model ` set out)"
proof -
  obtain out where out: "calculate_aggregate_rankings rs l2m = Inr out"
      "\<forall>a\<in>set out. 1 \<le> rankings_count a"
      "agg_model ` set out = {m. \<exists>r\<in>set rs. references l2m r m}"
    using aggregate_inv[of rs l2m] by blast
  have "\<forall>m. (\<forall>r\<in>set rs. \<not> mentions l2m r m) \<longrightarrow> m \<notin> agg_model ` set out"
    unfolding out(3) using references_mentions by blast
  then show ?thesis using out by blast
qed

definition lone_ranking :: stage2_result where
  "lone_ranking = \<lparr>s2_model = ''model_1'',
      s2_ranking = Some (''FINAL RANKING:'' @ [CHR 0x0A] @ ''1. Response A''),
      s2_parsed_ranking = Some [''Response A''], s2_rubric = None\<rparr>"

theorem aggregate_counts_positive_witness:
  "calculate_aggregate_rankings [lone_ranking]
      [(''Response A'', ''model_1''), (''Response B'', ''model_2'')] =
     Inr [\<lparr>agg_model = ''model_1'', total_score = 10, average_rank = 10, rankings_count = 1\<rparr>] \<and>
   (1::int) \<le> rankings_count
      \<lparr>agg_model = ''model_1'', total_score = 10, average_rank = 10, rankings_count = 1\<rparr> \<and>
   \<not> mentions [(''Response A'', ''model_1''), (''Response B'', ''model_2'')] lone_ranking ''model_2'' \<and>
   ''model_2'' \<notin> agg_model `
      set [\<lparr>agg_model = ''model_1'', total_score = 10, average_rank = 10, rankings_count = 1\<rparr>]"
proof -
  define l2m where "l2m = [(''Response A'', ''model_1''), (''Response B'', ''model_2'')]"
  define x where "x = \<lparr>agg_model = ''model_1'', total_score = 10, average_rank = 10,
      rankings_count = 1::int\<rparr>"
  have r10: "round2 10 = 10" by (simp add: round2_def py_round_def)
  have c: "calculate_aggregate_rankings [lone_ranking] l2m = Inr [x]"
    by (simp add: calculate_aggregate_rankings_def score_one_def fallback_ranking_def get_or_def
        Let_def credit_def dd_add_def weight_def py_sorted_reverse_def r10 lone_ranking_def
        l2m_def x_def)
  have fb: "fallback_ranking lone_ranking = Inr [''Response A'']"
    by (simp add: fallback_ranking_def get_or_def lone_ranking_def)
  have nm: "\<not> mentions l2m lone_ranking ''model_2''"
    unfolding mentions_def fb by (simp add: get_or_def lone_ranking_def l2m_def)
  then have h: "\<forall>r\<in>set [lone_ranking]. \<not> mentions l2m r ''model_2''" by simp
  obtain out where o: "calculate_aggregate_rankings [lone_ranking] l2m = Inr out \<and>
     (\<forall>a\<in>set out. 1 \<le> rankings_count a) \<and>
     agg_model ` set out = {m. \<exists>r\<in>set [lone_ranking]. references l2m r m} \<and>
     (\<forall>m. (\<forall>r\<in>set [lone_ranking]. \<not> mentions l2m r m) \<longrightarrow> m \<notin> agg_model ` set out)"
    using aggregate_counts_positive[of "[lone_ranking]" l2m] ..
  have eq: "out = [x]" using o c by simp
  have p1: "1 \<le> rankings_count x" using o eq by simp
  have p2: "''model_2'' \<notin> agg_model ` set [x]"
    using o[THEN conjunct2, THEN conjunct2, THEN conjunct2, THEN spec, of "''model_2''"] h eq
    by simp
  show ?thesis using c p1 p2 nm unfolding l2m_def x_def by simp
qed

subsection \<open>Claims about the panel and the driver\<close>

text \<open>
  Claim C9. Resolving the panel with an empty-list override gives what resolving with no
  override gives: the router model is asked once to classify the query, the panel
  returned is the preset of the detected category and the source tag is that category;
  the panel is not empty and the tag is not \<^verbatim>\<open>MANUAL_OVERRIDE\<close>.
\<close>

theorem empty_override_is_no_override:
  "get_council_for_query api q (Some []) = get_council_for_query api q None \<and>
   (\<exists>panel. get_council_for_query api q (Some []) =
        (Inr (panel, fst (classify_query api q)),
         [Query_model ROUTER_MODEL [(''user'', classify_prompt q)] 10]) \<and>
      map_of COUNCIL_PRESETS (fst (classify_query api q)) = Some panel \<and>
      panel \<noteq> []) \<and>
   fst (classify_query api q) \<noteq> ''MANUAL_OVERRIDE''"
proof -
  let ?cat = "fst (classify_query api q)"
  have inp: "?cat \<in> set (map fst COUNCIL_PRESETS)" by (rule classify_in_presets)
  obtain panel where p: "map_of COUNCIL_PRESETS ?cat = Some panel" "panel \<noteq> []"
    using preset_nonempty[OF inp] by blast
  have e: "get_council_for_query api q (Some []) =
      (Inr (panel, ?cat), [Query_model ROUTER_MODEL [(''user'', classify_prompt q)] 10])"
    using get_council_classified[of "Some []" api q] p(1) classify_log[of api q]
    by (simp add: get_or_def)
  have n: "get_council_for_query api q None = get_council_for_query api q (Some [])"
    using get_council_classified[of "Some []" api q] get_council_classified[of None api q]
    by simp
  show ?thesis using e n p preset_not_manual[OF inp] by auto
qed


definition coding_router :: openrouter where
  "coding_router =
     \<lparr>query_model = (\<lambda>model messages timeout.
          Some [(''content'', '' coding'' @ [CHR 0x0A] @ ''It is about a program.'')]),
      query_models_parallel = (\<lambda>models messages. map (\<lambda>m. (m, None)) models),
      stream_model = (\<lambda>model messages. [])\<rparr>"

lemma coding_router_category: "fst (classify_query coding_router ''Write a parser'') = ''CODING''"
  by (simp add: classify_query_def coding_router_def content_of_def get_or_def py_strip_def
      py_upper_def is_space_def preset_names Let_def)

theorem empty_override_is_no_override_witness:
  "get_council_for_query coding_router ''Write a parser'' (Some []) =
     (Inr ([''deepseek/deepseek-coder'', ''anthropic/claude-3.5-sonnet'', ''openai/gpt-4o''],
           ''CODING''),
      [Query_model ROUTER_MODEL [(''user'', classify_prompt ''Write a parser'')] 10]) \<and>
   get_council_for_query coding_router ''Write a parser'' None =
     get_council_for_query coding_router ''Write a parser'' (Some []) \<and>
   ''CODING'' \<noteq> ''MANUAL_OVERRIDE''"
proof -
  note th = empty_override_is_no_override[of coding_router "''Write a parser''"]
  obtain panel where p: "get_council_for_query coding_router ''Write a parser'' (Some []) =
        (Inr (panel, fst (classify_query coding_router ''Write a parser'')),
         [Query_model ROUTER_MODEL [(''user'', classify_prompt ''Write a parser'')] 10]) \<and>
      map_of COUNCIL_PRESETS (fst (classify_query coding_router ''Write a parser'')) = Some panel \<and>
      panel \<noteq> []"
    using th[THEN conjunct2, THEN conjunct1] ..
  have "map_of COUNCIL_PRESETS ''CODING'' = Some panel"
    using p by (simp add: coding_router_category)
  then have "panel = [''deepseek/deepseek-coder'', ''anthropic/claude-3.5-sonnet'', ''openai/gpt-4o'']"
    by (simp add: COUNCIL_PRESETS_def)
  then have a: "get_council_for_query coding_router ''Write a parser'' (Some []) =
     (Inr ([''deepseek/deepseek-coder'', ''anthropic/claude-3.5-sonnet'', ''openai/gpt-4o''],
           ''CODING''),
      [Query_model ROUTER_MODEL [(''user'', classify_prompt ''Write a parser'')] 10])"
    using p by (simp add: coding_router_category)
  have b: "get_council_for_query coding_router ''Write a parser'' None =
     get_council_for_query coding_router ''Write a parser'' (Some [])"
    using th[THEN conjunct1] by simp
  have c: "''CODING'' \<noteq> ''MANUAL_OVERRIDE''"
    using th[THEN conjunct2, THEN conjunct2] by (simp add: coding_router_category)
  show ?thesis by (intro conjI a b c)
qed

text \<open>
  Claim C3. The driver resolves the panel (asking the router model at most once) and runs
  Round 1. If Round 1 collects fewer than 2 successes, it returns the Round-1 successes,
  an empty Round-2 list, the terminal result with model \<^verbatim>\<open>error\<close> and the message about
  two models, and metadata holding only the detected category; the calls it has made are
  the panel resolution's and the one Round-1 fan-out, so neither Round 2 nor Round 3 is
  run. With 2 or more successes the Round-2 fan-out and the Round-3 stream follow.
\<close>

theorem minimum_panel_guard:
  "\<exists>resolved cat log0.
     get_council_for_query api q override = (Inr (resolved, cat), log0) \<and>
     (log0 = [] \<or> log0 = [Query_model ROUTER_MODEL [(''user'', classify_prompt q)] 10]) \<and>
     (length (fst (stage1_collect_responses api q (Some resolved))) < 2 \<longrightarrow>
        run_full_council api json_loads q override =
          (Inr (fst (stage1_collect_responses api q (Some resolved)), [],
                Some \<lparr>s3_model = ''error'', s3_done = None,
                      s3_response = ''At least two models are required for consensus. Please try again.''\<rparr>,
                \<lparr>md_label_to_model = None, md_aggregate_rankings = None,
                 md_detected_category = cat\<rparr>),
           log0 @ [Query_models_parallel resolved
                     [(''system'', STAGE1_SYSTEM_PROMPT), (''user'', q)]])) \<and>
     (2 \<le> length (fst (stage1_collect_responses api q (Some resolved))) \<longrightarrow>
        snd (run_full_council api json_loads q override) =
          log0 @
          [Query_models_parallel resolved [(''system'', STAGE1_SYSTEM_PROMPT), (''user'', q)],
           Query_models_parallel resolved
             [(''system'', STAGE2_SYSTEM_PROMPT),
              (''user'', ranking_prompt q (fst (stage1_collect_responses api q (Some resolved))))],
           Stream_model CHAIRMAN_MODEL
             [(''user'', chairman_prompt q (fst (stage1_collect_responses api q (Some resolved)))
                 (fst (projr (fst (stage2_collect_rankings api json_loads q
                    (fst (stage1_collect_responses api q (Some resolved))) (Some resolved))))))]])"
proof -
  obtain resolved cat log0 where
    g: "get_council_for_query api q override = (Inr (resolved, cat), log0)" and
    l: "log0 = [] \<or> log0 = [Query_model ROUTER_MODEL [(''user'', classify_prompt q)] 10]"
    using get_council_total[of api q override] by blast
  define s1 where "s1 = fst (stage1_collect_responses api q (Some resolved))"
  define q1 where "q1 = Query_models_parallel resolved
      [(''system'', STAGE1_SYSTEM_PROMPT), (''user'', q)]"
  define q2 where "q2 = Query_models_parallel resolved
      [(''system'', STAGE2_SYSTEM_PROMPT), (''user'', ranking_prompt q s1)]"
  have sp: "stage1_collect_responses api q (Some resolved) = (s1, [q1])"
    by (simp add: stage1_collect_responses_def Let_def s1_def q1_def)
  have small: "run_full_council api json_loads q override =
          (Inr (s1, [],
                Some \<lparr>s3_model = ''error'', s3_done = None,
                      s3_response = ''At least two models are required for consensus. Please try again.''\<rparr>,
                \<lparr>md_label_to_model = None, md_aggregate_rankings = None,
                 md_detected_category = cat\<rparr>),
           log0 @ [q1])" if "length s1 < 2"
    unfolding run_full_council_def g using that by (simp add: sp)
  obtain entries where en: "stage2_entries json_loads
      (successes (query_models_parallel api resolved
         [(''system'', STAGE2_SYSTEM_PROMPT), (''user'', ranking_prompt q s1)])) = Inr entries"
    using stage2_entries_total by blast
  have s2: "stage2_collect_rankings api json_loads q s1 (Some resolved) =
      (Inr (entries, make_label_to_model s1), [q2])"
    using en by (simp add: stage2_collect_rankings_def Let_def q2_def)
  obtain out where ag: "calculate_aggregate_rankings entries (make_label_to_model s1) = Inr out"
    using aggregate_total by blast
  define q3 where "q3 = Stream_model CHAIRMAN_MODEL [(''user'', chairman_prompt q s1 entries)]"
  obtain chunks where s3: "stage3_synthesize_final api q s1 entries = (chunks, [q3])"
    by (simp add: stage3_synthesize_final_def Let_def q3_def)
  have big: "snd (run_full_council api json_loads q override) = log0 @ [q1, q2, q3]"
    if "2 \<le> length s1"
    unfolding run_full_council_def g using that by (simp add: sp s2 ag s3)
  have en2: "fst (projr (fst (stage2_collect_rankings api json_loads q s1 (Some resolved)))) = entries"
    by (simp add: s2)
  show ?thesis
    apply (rule exI[of _ resolved], rule exI[of _ cat], rule exI[of _ log0])
    unfolding s1_def[symmetric] en2
    using g l small big by (simp add: q1_def q2_def q3_def)
qed

definition failing_backend :: openrouter where
  "failing_backend =
     \<lparr>query_model = (\<lambda>model messages timeout. None),
      query_models_parallel = (\<lambda>models messages. map (\<lambda>m. (m, None)) models),
      stream_model = (\<lambda>model messages. [])\<rparr>"


theorem minimum_panel_guard_witness:
  "get_council_for_query failing_backend ''Hello'' (Some [''model_1'', ''model_2'', ''model_3'']) =
     (Inr ([''model_1'', ''model_2'', ''model_3''], ''MANUAL_OVERRIDE''), []) \<and>
   length (fst (stage1_collect_responses failing_backend ''Hello''
                  (Some [''model_1'', ''model_2'', ''model_3'']))) < 2 \<and>
   run_full_council failing_backend (\<lambda>s. JsonError) ''Hello''
       (Some [''model_1'', ''model_2'', ''model_3'']) =
     (Inr ([], [],
           Some \<lparr>s3_model = ''error'', s3_done = None,
                 s3_response = ''At least two models are required for consensus. Please try again.''\<rparr>,
           \<lparr>md_label_to_model = None, md_aggregate_rankings = None,
            md_detected_category = ''MANUAL_OVERRIDE''\<rparr>),
      [Query_models_parallel [''model_1'', ''model_2'', ''model_3'']
         [(''system'', STAGE1_SYSTEM_PROMPT), (''user'', ''Hello'')]])"
proof -
  let ?ms = "[''model_1'', ''model_2'', ''model_3'']"
  have g: "get_council_for_query failing_backend ''Hello'' (Some ?ms) =
      (Inr (?ms, ''MANUAL_OVERRIDE''), [])"
    by (simp add: get_council_for_query_def get_or_def)
  have s1: "fst (stage1_collect_responses failing_backend ''Hello'' (Some ?ms)) = []"
    by (simp add: stage1_collect_responses_def failing_backend_def Let_def)
  obtain resolved cat log0 where
    o: "get_council_for_query failing_backend ''Hello'' (Some ?ms) = (Inr (resolved, cat), log0)"
    and r: "length (fst (stage1_collect_responses failing_backend ''Hello'' (Some resolved))) < 2 \<longrightarrow>
        run_full_council failing_backend (\<lambda>s. JsonError) ''Hello'' (Some ?ms) =
          (Inr (fst (stage1_collect_responses failing_backend ''Hello'' (Some resolved)), [],
                Some \<lparr>s3_model = ''error'', s3_done = None,
                      s3_response = ''At least two models are required for consensus. Please try again.''\<rparr>,
                \<lparr>md_label_to_model = None, md_aggregate_rankings = None,
                 md_detected_category = cat\<rparr>),
           log0 @ [Query_models_parallel resolved
                     [(''system'', STAGE1_SYSTEM_PROMPT), (''user'', ''Hello'')]])"
    using minimum_panel_guard[of failing_backend "''Hello''" "Some ?ms" "\<lambda>s. JsonError"] by blast
  have e: "resolved = ?ms" "cat = ''MANUAL_OVERRIDE''" "log0 = []" using o g by simp_all
  have lt: "length (fst (stage1_collect_responses failing_backend ''Hello'' (Some ?ms))) < 2"
    using s1 by simp
  have run: "run_full_council failing_backend (\<lambda>s. JsonError) ''Hello'' (Some ?ms) =
     (Inr ([], [],
           Some \<lparr>s3_model = ''error'', s3_done = None,
                 s3_response = ''At least two models are required for consensus. Please try again.''\<rparr>,
           \<lparr>md_label_to_model = None, md_aggregate_rankings = None,
            md_detected_category = ''MANUAL_OVERRIDE''\<rparr>),
      [Query_models_parallel ?ms [(''system'', STAGE1_SYSTEM_PROMPT), (''user'', ''Hello'')]])"
    using r lt unfolding e s1 by simp
  show ?thesis by (intro conjI g lt run)
qed

subsection \<open>Claims about Round 2\<close>























end
